theory Spec2Isabelle
  imports Main
begin

section \<open>Python values and exceptions\<close>

text \<open>
  The hashable Python objects that serve as keys and values of \<open>OneToOneMap\<close> in
  \<^verbatim>\<open>mapping.py\<close>: \<open>None\<close>, integers, strings and tuples of them.
  On these, Python's \<open>==\<close> is structural equality.
\<close>

datatype pyobj =
    PyNone
  | PyInt int
  | PyStr string
  | PyTuple "pyobj list"

text \<open>
  Every exception the two modules raise is a value. \<open>ValueError_size declared actual\<close>
  is the constructor's size complaint of \<^verbatim>\<open>sets.py\<close>; \<open>ValueError_mapped\<close> and
  \<open>KeyError_mapped\<close> carry the three arguments that \<open>OneToOneMap.__setitem__\<close> gives
  its exceptions; \<open>KeyError k\<close> is a dictionary's complaint about a missing key.
\<close>

datatype error =
    ValueError_size nat nat
  | ValueError_mapped pyobj string pyobj
  | KeyError_mapped pyobj string pyobj
  | KeyError pyobj
  | TypeError
  | IndexError
  | RuntimeError
  | StopIteration
  | AssertionError
  | AttributeError

section \<open>sets.py: SortedListSet\<close>

text \<open>
  An instance has the attributes \<open>_key\<close>, \<open>_list\<close> and \<open>modCount\<close>. Elements are
  of any type \<open>'a\<close> with Python's \<open>==\<close> as equality; keys are of a linearly ordered
  type \<open>'k\<close>, so no comparison of two keys raises. The source compares key functions
  with \<open>!=\<close>, which on Python callables is object identity: \<open>key_id\<close> is that
  identity. \<open>modCount\<close> is a Python integer.
\<close>

record ('a, 'k) SortedListSet =
  key :: "'a \<Rightarrow> 'k"
  key_id :: nat
  list' :: "'a list"
  modCount :: int

subsection \<open>List primitives of Python used by the class\<close>

text \<open>\<open>del l[i]\<close> and \<open>l.insert(i, v)\<close> for \<open>0 \<le> i < len(l)\<close>, and the slice
  \<open>l[a:b]\<close> for non-negative \<open>a\<close> and \<open>b\<close>.\<close>

definition del_at :: "'a list \<Rightarrow> nat \<Rightarrow> 'a list" where
  "del_at l i = take i l @ drop (Suc i) l"

definition insert_at :: "'a list \<Rightarrow> nat \<Rightarrow> 'a \<Rightarrow> 'a list" where
  "insert_at l i v = take i l @ v # drop i l"

definition slice :: "'a list \<Rightarrow> nat \<Rightarrow> nat \<Rightarrow> 'a list" where
  "slice l a b = drop a (take b l)"

subsection \<open>The constructor\<close>

text \<open>
  The \<open>iterable\<close> argument: absent (\<open>None\<close>), a \<open>Sized\<close> collection that reports
  a length and then produces elements (the two may disagree), or any other iterable.
\<close>

datatype 'a iterable =
    NoIterable
  | Sized nat "'a list"
  | Unsized "'a list"

text \<open>The loop \<open>for item in iterable: self._list[i] = item; i += 1\<close> over the
  pre-allocated list \<open>[None] * len(iterable)\<close>; a store past the end raises.\<close>

fun fill :: "'a option list \<Rightarrow> nat \<Rightarrow> 'a list \<Rightarrow> error + ('a option list \<times> nat)" where
  "fill l i [] = Inr (l, i)"
| "fill l i (item # rest) =
     (if i < length l then fill (l[i := Some item]) (i + 1) rest else Inl IndexError)"

text \<open>The loop \<open>for item in iterable: self._list.append(item)\<close>.\<close>

fun extend :: "'a list \<Rightarrow> 'a list \<Rightarrow> 'a list" where
  "extend l [] = l"
| "extend l (item # rest) = extend (l @ [item]) rest"

definition populate :: "'a iterable \<Rightarrow> error + 'a list" where
  "populate iterable =
     (case iterable of
        NoIterable \<Rightarrow> Inr []
      | Unsized xs \<Rightarrow> Inr (extend [] xs)
      | Sized n xs \<Rightarrow>
          (case fill (replicate n None) 0 xs of
             Inl e \<Rightarrow> Inl e
           | Inr (l, i) \<Rightarrow>
               if length l > i then Inl (ValueError_size (length l) i)
               else Inr (map the l)))"

text \<open>The loop that collapses runs of equal keys after the sort: \<open>last\<close> is the
  element before position \<open>i\<close>.\<close>

function dedupe :: "('a \<Rightarrow> 'k) \<Rightarrow> 'a \<Rightarrow> nat \<Rightarrow> 'a list \<Rightarrow> 'a list" where
  "dedupe kf last' i l =
     (if i < length l then
        (if kf last' = kf (l ! i)
         then dedupe kf (del_at l (i - 1) ! (i - 1)) (i - 1 + 1) (del_at l (i - 1))
         else dedupe kf (l ! i) (i + 1) l)
      else l)"
  by pat_completeness auto
termination
  by (relation "measure (\<lambda>(kf, last', i, l). length l - i)") (auto simp: del_at_def)

declare dedupe.simps [simp del]

text \<open>\<open>__init__(self, iterable, key)\<close>. The model takes the key function with its
  identity; \<open>key = None\<close> is the call with a fresh identity function.\<close>

definition SortedListSet_init ::
  "'a iterable \<Rightarrow> ('a \<Rightarrow> 'k::linorder) \<Rightarrow> nat \<Rightarrow> error + ('a, 'k) SortedListSet" where
  "SortedListSet_init iterable kf kid =
     (case populate iterable of
        Inl e \<Rightarrow> Inl e
      | Inr l0 \<Rightarrow>
          (let l1 = sort_key kf l0;
               l2 = (if l1 \<noteq> [] then dedupe kf (l1 ! 0) 1 l1 else l1)
           in Inr \<lparr>key = kf, key_id = kid, list' = l2, modCount = 0\<rparr>))"

subsection \<open>Positioning, membership, add and discard\<close>

text \<open>The \<open>while\<close> loop of \<open>_pos\<close>. Every call in the module leaves \<open>from_\<close> and
  \<open>to_\<close> at their defaults \<open>0\<close> and \<open>len(self._list)\<close>, so \<open>at\<close> is a valid index.\<close>

function pos_loop :: "('a \<Rightarrow> 'k::linorder) \<Rightarrow> 'a list \<Rightarrow> 'k \<Rightarrow> nat \<Rightarrow> nat \<Rightarrow> nat" where
  "pos_loop kf xs k from' to' =
     (if from' < to' then
        (let at = (from' + to') div 2; pivot = kf (xs ! at) in
           if pivot = k then at
           else if pivot > k then pos_loop kf xs k from' at
           else pos_loop kf xs k (at + 1) to')
      else from')"
  by pat_completeness auto
termination
  by (relation "measure (\<lambda>(kf, xs, k, f, t). t - f)") auto

declare pos_loop.simps [simp del]

definition pos :: "('a, 'k::linorder) SortedListSet \<Rightarrow> 'a \<Rightarrow> nat" where
  "pos self x = pos_loop (key self) (list' self) (key self x) 0 (length (list' self))"

definition contains :: "('a, 'k::linorder) SortedListSet \<Rightarrow> 'a \<Rightarrow> bool" where
  "contains self x = (let at = pos self x in length (list' self) > at \<and> list' self ! at = x)"

definition add :: "('a, 'k::linorder) SortedListSet \<Rightarrow> 'a \<Rightarrow> ('a, 'k) SortedListSet" where
  "add self v =
     (let at = pos self v in
        if length (list' self) \<le> at then self\<lparr>list' := list' self @ [v]\<rparr>
        else if key self v = key self (list' self ! at) then
          (if list' self ! at = v then self
           else self\<lparr>modCount := modCount self + 1, list' := (list' self)[at := v]\<rparr>)
        else self\<lparr>modCount := modCount self + 1, list' := insert_at (list' self) at v\<rparr>)"

definition discard :: "('a, 'k::linorder) SortedListSet \<Rightarrow> 'a \<Rightarrow> ('a, 'k) SortedListSet" where
  "discard self v =
     (let at = pos self v in
        if length (list' self) > at \<and> list' self ! at = v
        then self\<lparr>modCount := modCount self + 1, list' := del_at (list' self) at\<rparr>
        else self)"

definition len :: "('a, 'k) SortedListSet \<Rightarrow> nat" where
  "len self = length (list' self)"

subsection \<open>Iterators\<close>

text \<open>
  \<open>SortedListSet.Iterator\<close> keeps the counter it saw at creation (\<open>_modCount\<close>), a
  reference to the set and an iterator over a copy of the slice (\<open>_iter\<close>, here the
  elements not yet produced). The reference is the argument \<open>self'\<close> of
  \<open>Iterator_next\<close>: the set as it is when the iterator advances.
\<close>

record 'a Iterator =
  it_modCount :: int
  it_iter :: "'a list"

definition iter :: "('a, 'k::linorder) SortedListSet \<Rightarrow> 'a option \<Rightarrow> 'a option \<Rightarrow> 'a Iterator" where
  "iter self from' to' =
     (let fromIndex = (case from' of None \<Rightarrow> 0 | Some f \<Rightarrow> pos self f);
          toIndex = (case to' of None \<Rightarrow> length (list' self) | Some t \<Rightarrow> pos self t)
      in \<lparr>it_modCount = modCount self, it_iter = slice (list' self) fromIndex toIndex\<rparr>)"

definition Iterator_next ::
  "('a, 'k) SortedListSet \<Rightarrow> 'a Iterator \<Rightarrow> error + ('a \<times> 'a Iterator)" where
  "Iterator_next self' it =
     (if it_modCount it \<noteq> modCount self' then Inl RuntimeError
      else (case it_iter it of
              [] \<Rightarrow> Inl StopIteration
            | x # rest \<Rightarrow> Inr (x, it\<lparr>it_iter := rest\<rparr>)))"

text \<open>\<open>list(it)\<close>: advance until \<open>StopIteration\<close>.\<close>

function iterate :: "('a, 'k) SortedListSet \<Rightarrow> 'a Iterator \<Rightarrow> error + 'a list" where
  "iterate self' it =
     (case Iterator_next self' it of
        Inl e \<Rightarrow> if e = StopIteration then Inr [] else Inl e
      | Inr (x, it') \<Rightarrow>
          (case iterate self' it' of Inl e \<Rightarrow> Inl e | Inr xs \<Rightarrow> Inr (x # xs)))"
  by pat_completeness auto
termination
  by (relation "measure (\<lambda>(s, it). length (it_iter it))")
     (auto simp: Iterator_next_def split: if_splits list.splits)

declare iterate.simps [simp del]

subsection \<open>Comparisons\<close>

text \<open>
  The right operand of \<open><=\<close> and \<open>==\<close>: another \<open>SortedListSet\<close>, or some other
  \<open>collections.Set\<close> (a \<open>frozenset\<close>, say), of which only its size and its membership
  test are used.
\<close>

datatype ('a, 'k) operand =
    SLS "('a, 'k) SortedListSet"
  | OtherSet "'a set"

definition operand_len :: "('a, 'k) operand \<Rightarrow> nat" where
  "operand_len other = (case other of SLS t \<Rightarrow> len t | OtherSet S \<Rightarrow> card S)"

definition operand_contains :: "('a, 'k::linorder) operand \<Rightarrow> 'a \<Rightarrow> bool" where
  "operand_contains other x = (case other of SLS t \<Rightarrow> contains t x | OtherSet S \<Rightarrow> x \<in> S)"

text \<open>
  \<open>collections.Set.__le__\<close> of Python's standard library, which the class inherits
  and calls as \<open>collections.MutableSet.__le__(self, other)\<close>:
  \<^verbatim>\<open>
    if len(self) > len(other): return False
    for elem in self:
        if elem not in other: return False
    return True
  \<close>
  The \<open>for\<close> loop advances an iterator made by \<open>self.__iter__()\<close>, that is
  \<open>self.iter()\<close>.
\<close>

function Set_le_loop ::
  "('a, 'k) SortedListSet \<Rightarrow> 'a Iterator \<Rightarrow> ('a, 'k::linorder) operand \<Rightarrow> error + bool" where
  "Set_le_loop self it other =
     (case Iterator_next self it of
        Inl e \<Rightarrow> if e = StopIteration then Inr True else Inl e
      | Inr (elem, it') \<Rightarrow>
          if \<not> operand_contains other elem then Inr False
          else Set_le_loop self it' other)"
  by pat_completeness auto
termination
  by (relation "measure (\<lambda>(s, it, other). length (it_iter it))")
     (auto simp: Iterator_next_def split: if_splits list.splits)

declare Set_le_loop.simps [simp del]

definition Set_le :: "('a, 'k::linorder) SortedListSet \<Rightarrow> ('a, 'k) operand \<Rightarrow> error + bool" where
  "Set_le self other =
     (if len self > operand_len other then Inr False
      else Set_le_loop self (iter self None None) other)"

text \<open>The inner \<open>while\<close> loop of \<open>__le__\<close>: skip the elements of \<open>other\<close> whose key
  is below \<open>mykey\<close>.\<close>

function skip_below :: "('a \<Rightarrow> 'k::linorder) \<Rightarrow> 'k \<Rightarrow> 'a list \<Rightarrow> nat \<Rightarrow> nat" where
  "skip_below kf mykey ys i =
     (if i < length ys then
        (if mykey > kf (ys ! i) then skip_below kf mykey ys (i + 1) else i)
      else i)"
  by pat_completeness auto
termination
  by (relation "measure (\<lambda>(kf, mykey, ys, i). length ys - i)") auto

declare skip_below.simps [simp del]

text \<open>The loop \<open>for item in self._list\<close> of \<open>__le__\<close>, with the cursor \<open>i\<close> into
  \<open>other._list\<close>; reading \<open>other._list[i]\<close> past the end raises.\<close>

fun le_scan :: "('a \<Rightarrow> 'k::linorder) \<Rightarrow> 'a list \<Rightarrow> 'a list \<Rightarrow> nat \<Rightarrow> error + bool" where
  "le_scan kf [] ys i = Inr True"
| "le_scan kf (item # rest) ys i =
     (if length ys \<le> i then Inl IndexError
      else if item = ys ! i then le_scan kf rest ys (i + 1)
      else
        (let mykey = kf item; otherkey = kf (ys ! i) in
           if mykey \<le> otherkey then Inr False
           else
             (let j = skip_below kf mykey ys (i + 1) in
                if j \<ge> length ys then Inr False else le_scan kf rest ys j)))"

text \<open>
  \<open>__le__\<close>. The test \<open>2 * len_ * math.log(olen) / self._log2base < olen\<close> is
  floating-point arithmetic; its outcome is the parameter \<open>prefers_search len_ olen\<close>,
  so what is proved holds however the comparison of the two floats falls.
\<close>

definition le ::
  "(nat \<Rightarrow> nat \<Rightarrow> bool) \<Rightarrow> ('a, 'k::linorder) SortedListSet \<Rightarrow> ('a, 'k) operand \<Rightarrow> error + bool" where
  "le prefers_search self other =
     (case other of
        OtherSet S \<Rightarrow> Set_le self other
      | SLS t \<Rightarrow>
          (let len' = length (list' self); olen = length (list' t) in
             if len' > olen then Inr False
             else if (100 < olen \<and> prefers_search len' olen) \<or> key_id self \<noteq> key_id t
               then Set_le self other
             else le_scan (key self) (list' self) (list' t) 0))"

text \<open>The loop \<open>for i in range(0, len_)\<close> of \<open>__eq__\<close>.\<close>

fun eq_loop :: "'a list \<Rightarrow> 'a list \<Rightarrow> nat list \<Rightarrow> bool" where
  "eq_loop xs ys [] = True"
| "eq_loop xs ys (i # rest) = (if xs ! i \<noteq> ys ! i then False else eq_loop xs ys rest)"

definition eq :: "('a, 'k::linorder) SortedListSet \<Rightarrow> ('a, 'k) operand \<Rightarrow> error + bool" where
  "eq self other =
     (case other of
        OtherSet S \<Rightarrow> Set_le self other
      | SLS t \<Rightarrow>
          if key_id self \<noteq> key_id t then Set_le self other
          else
            (let len' = length (list' self) in
               if len' \<noteq> length (list' t) then Inr False
               else Inr (eq_loop (list' self) (list' t) [0..<len'])))"

subsection \<open>Sequences of mutations\<close>

datatype 'a mutation = Add 'a | Discard 'a

fun apply_mutation ::
  "('a, 'k::linorder) SortedListSet \<Rightarrow> 'a mutation \<Rightarrow> ('a, 'k) SortedListSet" where
  "apply_mutation s (Add v) = add s v"
| "apply_mutation s (Discard v) = discard s v"

definition apply_mutations ::
  "('a, 'k::linorder) SortedListSet \<Rightarrow> 'a mutation list \<Rightarrow> ('a, 'k) SortedListSet" where
  "apply_mutations s ms = foldl apply_mutation s ms"

text \<open>The invariant of the data model: the backing list ascends strictly by key.\<close>

definition ordered :: "('a, 'k::linorder) SortedListSet \<Rightarrow> bool" where
  "ordered s = sorted_wrt (<) (map (key s) (list' s))"

section \<open>mapping.py: OneToOneMap\<close>

text \<open>
  An instance holds references to two dictionaries (\<open>_forward\<close>, \<open>_reverse\<close>) and to
  its peer instance (\<open>_peer\<close>), and the peer holds references to the same two
  dictionaries, swapped. The heap makes that sharing explicit: dictionaries and
  instances live at addresses, and a method reads and writes through them. \<open>_peer\<close>
  is absent while \<open>__init__\<close> runs.
\<close>

type_synonym ref = nat

type_synonym dict = "pyobj \<rightharpoonup> pyobj"

record OneToOneMap =
  m_forward :: ref
  m_reverse :: ref
  m_peer :: "ref option"

record heap =
  dicts :: "ref \<rightharpoonup> dict"
  objects :: "ref \<rightharpoonup> OneToOneMap"
  next_ref :: ref

definition empty_heap :: heap where
  "empty_heap = \<lparr>dicts = Map.empty, objects = Map.empty, next_ref = 0\<rparr>"

subsection \<open>Dictionaries and string formatting of Python\<close>

text \<open>\<open>{}\<close>, \<open>d[k]\<close>, \<open>d[k] = v\<close> and \<open>del d[k]\<close> on the dictionary at an address.
  Reading or deleting a missing key raises \<open>KeyError\<close>.\<close>

definition new_dict :: "heap \<Rightarrow> ref \<times> heap" where
  "new_dict h =
     (next_ref h, h\<lparr>dicts := (dicts h)(next_ref h \<mapsto> Map.empty), next_ref := next_ref h + 1\<rparr>)"

definition dict_getitem :: "dict \<Rightarrow> pyobj \<Rightarrow> error + pyobj" where
  "dict_getitem d k = (case d k of None \<Rightarrow> Inl (KeyError k) | Some v \<Rightarrow> Inr v)"

definition dict_setitem :: "heap \<Rightarrow> ref \<Rightarrow> pyobj \<Rightarrow> pyobj \<Rightarrow> error option \<times> heap" where
  "dict_setitem h r k v =
     (case dicts h r of
        None \<Rightarrow> (Some AttributeError, h)
      | Some d \<Rightarrow> (None, h\<lparr>dicts := (dicts h)(r \<mapsto> d(k \<mapsto> v))\<rparr>))"

definition dict_delitem :: "heap \<Rightarrow> ref \<Rightarrow> pyobj \<Rightarrow> error option \<times> heap" where
  "dict_delitem h r k =
     (case dicts h r of
        None \<Rightarrow> (Some AttributeError, h)
      | Some d \<Rightarrow>
          if d k = None then (Some (KeyError k), h)
          else (None, h\<lparr>dicts := (dicts h)(r \<mapsto> d(k := None))\<rparr>))"

text \<open>
  Python's \<open>fmt % arg\<close> for a format string without a conversion specifier, which
  is what both messages of \<open>__setitem__\<close> are. Formatting must consume every
  argument: it raises \<open>TypeError\<close> (``not all arguments converted during string
  formatting'') unless \<open>arg\<close> is the empty tuple.
\<close>

fun str_mod :: "string \<Rightarrow> pyobj \<Rightarrow> error + string" where
  "str_mod fmt (PyTuple []) = Inr fmt"
| "str_mod fmt (PyTuple (x # xs)) = Inl TypeError"
| "str_mod fmt PyNone = Inl TypeError"
| "str_mod fmt (PyInt n) = Inl TypeError"
| "str_mod fmt (PyStr s) = Inl TypeError"

subsection \<open>The methods\<close>

text \<open>A method that stores returns the exception it raised, if any, and the heap as
  it left it; a method that only reads returns its value or its exception.\<close>

definition setitem :: "heap \<Rightarrow> ref \<Rightarrow> pyobj \<Rightarrow> pyobj \<Rightarrow> error option \<times> heap" where
  "setitem h self k v =
     (case objects h self of
        None \<Rightarrow> (Some AttributeError, h)
      | Some m \<Rightarrow>
          (case dicts h (m_reverse m) of
             None \<Rightarrow> (Some AttributeError, h)
           | Some rev' \<Rightarrow>
               if rev' v \<noteq> None \<and> rev' v \<noteq> Some k then
                 (case str_mod ''Value is already mapped to another key, please delete it before mapping to '' k of
                    Inl e \<Rightarrow> (Some e, h)
                  | Inr msg \<Rightarrow>
                      (case dict_getitem rev' v of
                         Inl e \<Rightarrow> (Some e, h)
                       | Inr k' \<Rightarrow> (Some (ValueError_mapped v msg k'), h)))
               else
                 (case dicts h (m_forward m) of
                    None \<Rightarrow> (Some AttributeError, h)
                  | Some fwd \<Rightarrow>
                      if fwd k \<noteq> None \<and> fwd k \<noteq> Some v then
                        (case str_mod ''Key is already mapped to another value, please delete it before mapping to '' v of
                           Inl e \<Rightarrow> (Some e, h)
                         | Inr msg \<Rightarrow>
                             (case dict_getitem fwd k of
                                Inl e \<Rightarrow> (Some e, h)
                              | Inr v' \<Rightarrow> (Some (KeyError_mapped k msg v'), h)))
                      else
                        (case dict_setitem h (m_forward m) k v of
                           (Some e, h1) \<Rightarrow> (Some e, h1)
                         | (None, h1) \<Rightarrow> dict_setitem h1 (m_reverse m) v k))))"

definition delitem :: "heap \<Rightarrow> ref \<Rightarrow> pyobj \<Rightarrow> error option \<times> heap" where
  "delitem h self k =
     (case objects h self of
        None \<Rightarrow> (Some AttributeError, h)
      | Some m \<Rightarrow>
          (case dicts h (m_forward m) of
             None \<Rightarrow> (Some AttributeError, h)
           | Some fwd \<Rightarrow>
               (case dict_getitem fwd k of
                  Inl e \<Rightarrow> (Some e, h)
                | Inr v \<Rightarrow>
                    (case dict_delitem h (m_reverse m) v of
                       (Some e, h1) \<Rightarrow> (Some e, h1)
                     | (None, h1) \<Rightarrow> dict_delitem h1 (m_forward m) k))))"

definition getitem :: "heap \<Rightarrow> ref \<Rightarrow> pyobj \<Rightarrow> error + pyobj" where
  "getitem h self k =
     (case objects h self of
        None \<Rightarrow> Inl AttributeError
      | Some m \<Rightarrow>
          (case dicts h (m_forward m) of
             None \<Rightarrow> Inl AttributeError
           | Some fwd \<Rightarrow> dict_getitem fwd k))"

text \<open>\<open>__len__\<close>, with its assertion that the two dictionaries have the same size.\<close>

definition OneToOneMap_len :: "heap \<Rightarrow> ref \<Rightarrow> error + nat" where
  "OneToOneMap_len h self =
     (case objects h self of
        None \<Rightarrow> Inl AttributeError
      | Some m \<Rightarrow>
          (case dicts h (m_forward m) of
             None \<Rightarrow> Inl AttributeError
           | Some fwd \<Rightarrow>
               (case dicts h (m_reverse m) of
                  None \<Rightarrow> Inl AttributeError
                | Some rev' \<Rightarrow>
                    (let len' = card (dom fwd) in
                       if card (dom rev') = len' then Inr len' else Inl AssertionError))))"

text \<open>\<open>reverse()\<close> is \<open>return self._peer\<close>. It returns the heap as well, so that
  what it allocates or stores can be stated.\<close>

definition reverse :: "heap \<Rightarrow> ref \<Rightarrow> (error + ref) \<times> heap" where
  "reverse h self =
     (case objects h self of
        None \<Rightarrow> (Inl AttributeError, h)
      | Some m \<Rightarrow>
          (case m_peer m of
             None \<Rightarrow> (Inl AttributeError, h)
           | Some p \<Rightarrow> (Inr p, h)))"

subsection \<open>The constructor\<close>

text \<open>The loop \<open>for k, v in items: self[k] = v\<close>; an exception leaves the loop.\<close>

fun setitems :: "heap \<Rightarrow> ref \<Rightarrow> (pyobj \<times> pyobj) list \<Rightarrow> error option \<times> heap" where
  "setitems h self [] = (None, h)"
| "setitems h self ((k, v) # rest) =
     (case setitem h self k v of
        (Some e, h1) \<Rightarrow> (Some e, h1)
      | (None, h1) \<Rightarrow> setitems h1 self rest)"

text \<open>\<open>OneToOneMap(_peer = peer)\<close>, the second branch of \<open>__init__\<close>: a new instance
  whose dictionaries are the peer's, swapped.\<close>

definition OneToOneMap_init_peer :: "heap \<Rightarrow> ref \<Rightarrow> (error + ref) \<times> heap" where
  "OneToOneMap_init_peer h peer =
     (let self = next_ref h; h0 = h\<lparr>next_ref := self + 1\<rparr> in
        case objects h0 peer of
          None \<Rightarrow> (Inl AttributeError, h0)
        | Some p \<Rightarrow>
            (Inr self,
             h0\<lparr>objects := (objects h0)(self \<mapsto>
                   \<lparr>m_forward = m_reverse p, m_reverse = m_forward p, m_peer = Some peer\<rparr>)\<rparr>))"

text \<open>\<open>OneToOneMap(mapping)\<close>, the first branch; \<open>mapping\<close> is given as its list of
  items (empty for \<open>None\<close>). The result is the address of the new instance.\<close>

definition OneToOneMap_init :: "heap \<Rightarrow> (pyobj \<times> pyobj) list \<Rightarrow> (error + ref) \<times> heap" where
  "OneToOneMap_init h items =
     (let self = next_ref h;
          h0 = h\<lparr>next_ref := self + 1\<rparr>;
          (f, h1) = new_dict h0;
          (r, h2) = new_dict h1;
          h3 = h2\<lparr>objects := (objects h2)(self \<mapsto> \<lparr>m_forward = f, m_reverse = r, m_peer = None\<rparr>)\<rparr>
      in case setitems h3 self items of
           (Some e, h4) \<Rightarrow> (Inl e, h4)
         | (None, h4) \<Rightarrow>
             (case OneToOneMap_init_peer h4 self of
                (Inl e, h5) \<Rightarrow> (Inl e, h5)
              | (Inr p, h5) \<Rightarrow>
                  (case objects h5 self of
                     None \<Rightarrow> (Inl AttributeError, h5)
                   | Some m \<Rightarrow>
                       (Inr self, h5\<lparr>objects := (objects h5)(self \<mapsto> m\<lparr>m_peer := Some p\<rparr>)\<rparr>))))"

subsection \<open>Client statements on a map and on its reverse view\<close>

datatype call = SetItem pyobj pyobj | DelItem pyobj

text \<open>\<open>m[k] = v\<close> and \<open>del m[k]\<close>, or the same on \<open>m.reverse()\<close>.\<close>

datatype stmt = On_self call | On_reverse call

fun do_call :: "heap \<Rightarrow> ref \<Rightarrow> call \<Rightarrow> error option \<times> heap" where
  "do_call h r (SetItem k v) = setitem h r k v"
| "do_call h r (DelItem k) = delitem h r k"

text \<open>A statement whose exception, if any, the client catches: the heap goes on as
  the statement left it.\<close>

fun exec :: "heap \<Rightarrow> ref \<Rightarrow> stmt \<Rightarrow> heap" where
  "exec h m (On_self c) = snd (do_call h m c)"
| "exec h m (On_reverse c) =
     (case reverse h m of
        (Inl e, h1) \<Rightarrow> h1
      | (Inr p, h1) \<Rightarrow> snd (do_call h1 p c))"

fun exec_all :: "heap \<Rightarrow> ref \<Rightarrow> stmt list \<Rightarrow> heap" where
  "exec_all h m [] = h"
| "exec_all h m (s # rest) = exec_all (exec h m s) m rest"

section \<open>Predicates used in the proofs\<close>

text \<open>\<open>located kf xs k p\<close>: position \<open>p\<close> splits \<open>xs\<close> into the keys below \<open>k\<close>
  and, from \<open>p\<close> on, the keys not below \<open>k\<close>, only \<open>xs ! p\<close> possibly with key
  \<open>k\<close> itself.\<close>

definition located :: "('a \<Rightarrow> 'k::linorder) \<Rightarrow> 'a list \<Rightarrow> 'k \<Rightarrow> nat \<Rightarrow> bool" where
  "located kf xs k p \<longleftrightarrow>
     p \<le> length xs \<and> (\<forall>j<p. kf (xs ! j) < k) \<and> (p < length xs \<longrightarrow> k \<le> kf (xs ! p)) \<and>
     (\<forall>j. p < j \<and> j < length xs \<longrightarrow> k < kf (xs ! j))"


text \<open>The brute-force subset test the optimised \<open><=\<close> is compared with: every
  element of the left operand is a member of the right operand.\<close>

definition brute_force_subset ::
  "('a, 'k::linorder) SortedListSet \<Rightarrow> ('a, 'k) SortedListSet \<Rightarrow> bool" where
  "brute_force_subset self other = list_all (\<lambda>x. contains other x) (list' self)"

text \<open>Generic set equality, \<open>collections.Set.__eq__\<close> of the standard library:
  \<open>len(self) == len(other) and self.__le__(other)\<close>.\<close>

definition Set_eq ::
  "(nat \<Rightarrow> nat \<Rightarrow> bool) \<Rightarrow> ('a, 'k::linorder) SortedListSet \<Rightarrow> ('a, 'k) operand \<Rightarrow> error + bool" where
  "Set_eq prefers_search self other =
     (if len self = operand_len other then le prefers_search self other else Inr False)"

text \<open>
  The invariant of a \<open>OneToOneMap\<close>: the two dictionaries are finite and each is the
  inverse of the other (\<open>inverse_dicts\<close>); they live at two different addresses
  (\<open>linked\<close>); and two instances are each other's peer over them, each with the
  dictionaries swapped (\<open>paired\<close>).
\<close>

definition inverse_dicts :: "dict \<Rightarrow> dict \<Rightarrow> bool" where
  "inverse_dicts F R \<longleftrightarrow> finite (dom F) \<and> (\<forall>k v. F k = Some v \<longleftrightarrow> R v = Some k)"

definition linked :: "heap \<Rightarrow> ref \<Rightarrow> ref \<Rightarrow> bool" where
  "linked h f r \<longleftrightarrow>
     f \<noteq> r \<and> (\<exists>F R. dicts h f = Some F \<and> dicts h r = Some R \<and> inverse_dicts F R)"

definition paired :: "heap \<Rightarrow> ref \<Rightarrow> ref \<Rightarrow> bool" where
  "paired h a b \<longleftrightarrow>
     (\<exists>f r. objects h a = Some \<lparr>m_forward = f, m_reverse = r, m_peer = Some b\<rparr> \<and>
            objects h b = Some \<lparr>m_forward = r, m_reverse = f, m_peer = Some a\<rparr> \<and>
            linked h f r)"

text \<open>The heap once \<open>__init__\<close> has allocated the instance and its two empty
  dictionaries, before the items are stored.\<close>

definition fresh_map :: "heap \<Rightarrow> heap" where
  "fresh_map h =
     (let self = next_ref h;
          h0 = h\<lparr>next_ref := self + 1\<rparr>;
          (f, h1) = new_dict h0;
          (r, h2) = new_dict h1
      in h2\<lparr>objects := (objects h2)(self \<mapsto> \<lparr>m_forward = f, m_reverse = r, m_peer = None\<rparr>)\<rparr>)"

section \<open>SortedListSet: binary search and the order invariant\<close>

lemma ordered_nth:
  "sorted_wrt (<) (map kf xs) \<Longrightarrow> i < j \<Longrightarrow> j < length xs \<Longrightarrow> kf (xs ! i) < kf (xs ! j)"
  by (simp add: sorted_wrt_iff_nth_less)

lemma pos_loop_bounds:
  "from' \<le> to' \<Longrightarrow>
   from' \<le> pos_loop kf xs k from' to' \<and> pos_loop kf xs k from' to' \<le> to'"
proof (induction kf xs k from' to' rule: pos_loop.induct)
  case (1 kf xs k from' to')
  show ?case
  proof (cases "from' < to'")
    case False
    with "1.prems" show ?thesis by (simp add: pos_loop.simps)
  next
    case True
    let ?at = "(from' + to') div 2"
    have at: "from' \<le> ?at" "?at < to'" using True by auto
    show ?thesis
    proof (cases "kf (xs ! ?at) = k")
      case eq: True
      then show ?thesis using True at by (subst (1 2) pos_loop.simps) (simp add: Let_def)
    next
      case ne: False
      show ?thesis
      proof (cases "k < kf (xs ! ?at)")
        case gt: True
        have "from' \<le> pos_loop kf xs k from' ?at \<and> pos_loop kf xs k from' ?at \<le> ?at"
          using "1.IH"(1)[OF True refl refl ne gt] at by simp
        then show ?thesis using True ne gt at
          by (subst (1 2) pos_loop.simps) (simp add: Let_def)
      next
        case ngt: False
        have "?at + 1 \<le> pos_loop kf xs k (?at + 1) to' \<and> pos_loop kf xs k (?at + 1) to' \<le> to'"
          using "1.IH"(2)[OF True refl refl ne ngt] at by simp
        then show ?thesis using True ne ngt at
          by (subst (1 2) pos_loop.simps) (simp add: Let_def)
      qed
    qed
  qed
qed

lemma pos_loop_located:
  "sorted_wrt (<) (map kf xs) \<Longrightarrow> from' \<le> to' \<Longrightarrow> to' \<le> length xs \<Longrightarrow>
   \<forall>j<from'. kf (xs ! j) < k \<Longrightarrow> \<forall>j. to' \<le> j \<and> j < length xs \<longrightarrow> k < kf (xs ! j) \<Longrightarrow>
   located kf xs k (pos_loop kf xs k from' to')"
proof (induction kf xs k from' to' rule: pos_loop.induct)
  case (1 kf xs k from' to')
  note srt = "1.prems"(1)
  show ?case
  proof (cases "from' < to'")
    case False
    then have "pos_loop kf xs k from' to' = from'" "from' = to'"
      using "1.prems" by (simp_all add: pos_loop.simps)
    then show ?thesis using "1.prems" unfolding located_def
      by (auto simp: less_imp_le)
  next
    case True
    let ?at = "(from' + to') div 2"
    have at: "from' \<le> ?at" "?at < to'" "?at < length xs" using True "1.prems" by auto
    show ?thesis
    proof (cases "kf (xs ! ?at) = k")
      case eq: True
      have p: "pos_loop kf xs k from' to' = ?at"
        using True eq by (subst pos_loop.simps) (simp add: Let_def)
      have "\<forall>j<?at. kf (xs ! j) < k" using ordered_nth[OF srt _ at(3)] eq by auto
      moreover have "\<forall>j. ?at < j \<and> j < length xs \<longrightarrow> k < kf (xs ! j)"
        using ordered_nth[OF srt, of ?at] eq by auto
      ultimately show ?thesis unfolding located_def p using at eq by auto
    next
      case ne: False
      show ?thesis
      proof (cases "k < kf (xs ! ?at)")
        case gt: True
        have p: "pos_loop kf xs k from' to' = pos_loop kf xs k from' ?at"
          using True ne gt by (subst pos_loop.simps) (simp add: Let_def)
        have "\<forall>j. ?at \<le> j \<and> j < length xs \<longrightarrow> k < kf (xs ! j)"
        proof (intro allI impI)
          fix j assume j: "?at \<le> j \<and> j < length xs"
          show "k < kf (xs ! j)"
          proof (cases "j = ?at")
            case True then show ?thesis using gt by simp
          next
            case False
            then have "kf (xs ! ?at) < kf (xs ! j)" using ordered_nth[OF srt, of ?at j] j by auto
            then show ?thesis using gt by simp
          qed
        qed
        then show ?thesis unfolding p
          using "1.IH"(1)[OF True refl refl ne gt srt] at "1.prems" by simp
      next
        case ngt: False
        then have lt: "kf (xs ! ?at) < k" using ne by auto
        have p: "pos_loop kf xs k from' to' = pos_loop kf xs k (?at + 1) to'"
          using True ne ngt by (subst pos_loop.simps) (simp add: Let_def)
        have "\<forall>j<?at + 1. kf (xs ! j) < k"
        proof (intro allI impI)
          fix j assume j: "j < ?at + 1"
          show "kf (xs ! j) < k"
          proof (cases "j = ?at")
            case True then show ?thesis using lt by simp
          next
            case False
            then have "kf (xs ! j) < kf (xs ! ?at)" using ordered_nth[OF srt, of j ?at] j at by auto
            then show ?thesis using lt by simp
          qed
        qed
        then show ?thesis unfolding p
          using "1.IH"(2)[OF True refl refl ne ngt srt] at "1.prems" by simp
      qed
    qed
  qed
qed

lemma pos_located: "ordered s \<Longrightarrow> located (key s) (list' s) (key s x) (pos s x)"
  unfolding ordered_def pos_def by (rule pos_loop_located) auto

lemma located_unique:
  assumes "located kf xs k p" and "q < length xs" and "kf (xs ! q) = k"
  shows "p = q"
proof (rule ccontr)
  assume "p \<noteq> q"
  then consider "q < p" | "p < q" by linarith
  then show False
  proof cases
    case 1
    with assms(1) have "kf (xs ! q) < k" unfolding located_def by blast
    with assms(3) show False by simp
  next
    case 2
    with assms(1,2) have "k < kf (xs ! q)" unfolding located_def by blast
    with assms(3) show False by simp
  qed
qed

lemma take_keys_below:
  assumes "located kf xs k p" and "x \<in> set (take p xs)"
  shows "kf x < k"
proof -
  from assms(2) obtain j where "j < length (take p xs)" "take p xs ! j = x"
    by (auto simp: in_set_conv_nth)
  then have "j < p" "xs ! j = x" by auto
  with assms(1) show ?thesis unfolding located_def by blast
qed

lemma drop_keys_above:
  assumes "located kf xs k p" and "x \<in> set (drop (Suc p) xs)"
  shows "k < kf x"
proof -
  from assms(2) obtain j where j: "j < length (drop (Suc p) xs)" "drop (Suc p) xs ! j = x"
    by (auto simp: in_set_conv_nth)
  then have "Suc p + j < length xs" "xs ! (Suc p + j) = x" by auto
  with assms(1) show ?thesis unfolding located_def by (metis less_add_Suc1 add_Suc)
qed

lemma sorted_append_key:
  assumes "sorted_wrt (<) (map kf xs)" and "located kf xs (kf v) p" and "length xs \<le> p"
  shows "sorted_wrt (<) (map kf (xs @ [v]))"
proof -
  have "p = length xs" using assms(2,3) unfolding located_def by simp
  then have "\<forall>x\<in>set xs. kf x < kf v"
    using take_keys_below[OF assms(2)] by simp
  then show ?thesis using assms(1) by (simp add: sorted_wrt_append)
qed

lemma sorted_replace_key:
  assumes "sorted_wrt (<) (map kf xs)" and "p < length xs" and "kf v = kf (xs ! p)"
  shows "sorted_wrt (<) (map kf (xs[p := v]))"
proof -
  have "map kf (xs[p := v]) = (map kf xs)[p := kf v]" by (simp add: map_update)
  also have "\<dots> = map kf xs" using assms(2,3) by (simp add: list_update_same_conv)
  finally show ?thesis using assms(1) by simp
qed

lemma sorted_insert_key:
  assumes srt: "sorted_wrt (<) (map kf xs)" and loc: "located kf xs (kf v) p"
    and p: "p < length xs" and ne: "kf v \<noteq> kf (xs ! p)"
  shows "sorted_wrt (<) (map kf (insert_at xs p v))"
proof -
  have below: "\<forall>x\<in>set (take p xs). kf x < kf v" using take_keys_below[OF loc] by blast
  have dr: "drop p xs = xs ! p # drop (Suc p) xs" using p by (simp add: Cons_nth_drop_Suc)
  have "kf v < kf (xs ! p)" using loc p ne unfolding located_def by auto
  then have above: "\<forall>x\<in>set (drop p xs). kf v < kf x"
    using drop_keys_above[OF loc] dr by auto
  have whole: "sorted_wrt (<) (map kf (take p xs @ drop p xs))" using srt by simp
  then have parts: "sorted_wrt (<) (map kf (take p xs))" "sorted_wrt (<) (map kf (drop p xs))"
    "\<forall>x\<in>set (take p xs). \<forall>y\<in>set (drop p xs). kf x < kf y"
    unfolding map_append sorted_wrt_append by auto
  show ?thesis unfolding insert_at_def
    using parts below above by (auto simp: sorted_wrt_append)
qed

lemma sorted_del_key:
  assumes "sorted_wrt P (map kf xs)"
  shows "sorted_wrt P (map kf (del_at xs p))"
proof -
  have "sorted_wrt P (map kf (take p xs @ drop p xs))" using assms by simp
  then have parts: "sorted_wrt P (map kf (take p xs))"
    "\<forall>x\<in>set (take p xs). \<forall>y\<in>set (drop p xs). P (kf x) (kf y)"
    unfolding map_append sorted_wrt_append by auto
  have sub: "set (drop (Suc p) xs) \<subseteq> set (drop p xs)"
    by (metis drop_Suc set_drop_subset tl_drop drop_drop plus_1_eq_Suc)
  have "sorted_wrt P (map kf (drop (Suc p) xs))"
    using assms by (metis drop_map sorted_wrt_drop)
  then show ?thesis unfolding del_at_def using parts sub
    by (auto simp: sorted_wrt_append)
qed

lemma ordered_add: "ordered s \<Longrightarrow> ordered (add s v)"
  using pos_located[of s v] sorted_append_key[of "key s" "list' s" v "pos s v"]
    sorted_replace_key[of "key s" "list' s" "pos s v" v]
    sorted_insert_key[of "key s" "list' s" v "pos s v"]
  by (auto simp: ordered_def add_def Let_def)

lemma ordered_discard: "ordered s \<Longrightarrow> ordered (discard s v)"
  using sorted_del_key[of "(<)" "key s" "list' s" "pos s v"]
  by (auto simp: ordered_def discard_def Let_def)

lemma ordered_apply_mutations: "ordered s \<Longrightarrow> ordered (apply_mutations s ms)"
  unfolding apply_mutations_def
proof (induction ms arbitrary: s)
  case Nil
  then show ?case by simp
next
  case (Cons m ms)
  have "ordered (apply_mutation s m)"
    using Cons.prems by (cases m) (simp_all add: ordered_add ordered_discard)
  then show ?case using Cons.IH by simp
qed

lemma del_at_nth:
  "j < length l \<Longrightarrow> Suc n < length l \<Longrightarrow> del_at l j ! n = (if n < j then l ! n else l ! Suc n)"
  by (auto simp: del_at_def nth_append min_def)

lemma del_at_length: "j < length l \<Longrightarrow> length (del_at l j) = length l - 1"
  by (auto simp: del_at_def)

lemma strict_prefix_nth:
  "sorted_wrt (<) (map kf (take i l)) \<longleftrightarrow>
   (\<forall>a b. a < b \<and> b < i \<and> b < length l \<longrightarrow> kf (l ! a) < kf (l ! b))"
  by (auto simp: sorted_wrt_iff_nth_less)

lemma dedupe_sorted:
  "sorted (map kf l) \<Longrightarrow> 1 \<le> i \<Longrightarrow> sorted_wrt (<) (map kf (take i l)) \<Longrightarrow>
   i \<le> length l \<Longrightarrow> kf last' = kf (l ! (i - 1)) \<Longrightarrow>
   sorted_wrt (<) (map kf (dedupe kf last' i l))"
proof (induction kf last' i l rule: dedupe.induct)
  case (1 kf last' i l)
  show ?case
  proof (cases "i < length l")
    case False
    then have "dedupe kf last' i l = l" by (simp add: dedupe.simps)
    moreover have "take i l = l" using False by simp
    ultimately show ?thesis using "1.prems"(3) by simp
  next
    case True
    have mono: "\<And>a b. a \<le> b \<Longrightarrow> b < length l \<Longrightarrow> kf (l ! a) \<le> kf (l ! b)"
      using "1.prems"(1) by (auto simp: sorted_iff_nth_mono)
    note strict = "1.prems"(3)[unfolded strict_prefix_nth]
    show ?thesis
    proof (cases "kf last' = kf (l ! i)")
      case eq: True
      let ?l = "del_at l (i - 1)"
      have len: "length ?l = length l - 1" using True by (simp add: del_at_length)
      have nth: "\<And>n. Suc n < length l \<Longrightarrow> ?l ! n = (if n < i - 1 then l ! n else l ! Suc n)"
        using True by (simp add: del_at_nth)
      have step: "dedupe kf last' i l = dedupe kf (?l ! (i - 1)) i ?l"
        using True eq "1.prems"(2) by (subst dedupe.simps) simp
      have a: "sorted (map kf ?l)"
        using "1.prems"(1) by (rule sorted_del_key)
      have b: "sorted_wrt (<) (map kf (take i ?l))"
        unfolding strict_prefix_nth
      proof (intro allI impI)
        fix a b assume ab: "a < b \<and> b < i \<and> b < length ?l"
        show "kf (?l ! a) < kf (?l ! b)"
        proof (cases "b < i - 1")
          case True
          have sb: "Suc b < length l" "Suc a < length l" "b < length l"
            using ab len by linarith+
          have "?l ! a = l ! a" "?l ! b = l ! b"
            using nth[OF sb(1)] nth[OF sb(2)] ab True by simp_all
          moreover have "kf (l ! a) < kf (l ! b)" using strict ab sb by blast
          ultimately show ?thesis by simp
        next
          case False
          then have bi: "b = i - 1" using ab by linarith
          have sa: "Suc b < length l" "Suc a < length l" "Suc b = i" "i - 1 < length l"
            using ab len bi "1.prems"(2) by linarith+
          have "?l ! a = l ! a" "?l ! b = l ! i"
            using nth[OF sa(1)] nth[OF sa(2)] ab bi sa(3) by simp_all
          moreover have "kf (l ! a) < kf (l ! (i - 1))"
            using strict ab bi sa "1.prems"(2) by blast
          ultimately show ?thesis using eq "1.prems"(5) by simp
        qed
      qed
      have c: "i \<le> length ?l" using True len by simp
      show ?thesis unfolding step
        using "1.IH"(1)[OF True eq] a b c "1.prems"(2) by simp
    next
      case ne: False
      have step: "dedupe kf last' i l = dedupe kf (l ! i) (i + 1) l"
        using True ne by (subst dedupe.simps) simp
      have lt: "kf (l ! (i - 1)) < kf (l ! i)"
        using mono[of "i - 1" i] True ne "1.prems"(5) by simp
      have b: "sorted_wrt (<) (map kf (take (i + 1) l))"
        unfolding strict_prefix_nth
      proof (intro allI impI)
        fix a b assume ab: "a < b \<and> b < i + 1 \<and> b < length l"
        show "kf (l ! a) < kf (l ! b)"
        proof (cases "b < i")
          case True
          then show ?thesis using ab strict by simp
        next
          case False
          then have bi: "b = i" using ab by simp
          have "kf (l ! a) \<le> kf (l ! (i - 1))" using mono[of a "i - 1"] ab bi True by simp
          then show ?thesis using lt bi by simp
        qed
      qed
      show ?thesis unfolding step
        using "1.IH"(2)[OF True ne] "1.prems"(1) b True by simp
    qed
  qed
qed

lemma fill_result:
  "i \<le> length l \<Longrightarrow>
   fill l i xs =
     (if i + length xs \<le> length l
      then Inr (take i l @ map Some xs @ drop (i + length xs) l, i + length xs)
      else Inl IndexError)"
proof (induction xs arbitrary: l i)
  case Nil
  then show ?case by simp
next
  case (Cons item rest)
  show ?case
  proof (cases "i < length l")
    case False
    then show ?thesis by simp
  next
    case True
    have upd: "l[i := Some item] = take i l @ Some item # drop (Suc i) l"
      using True by (rule upd_conv_take_nth_drop)
    have t: "take (i + 1) (l[i := Some item]) = take i l @ [Some item]"
      using True by (simp add: upd)
    have d: "drop (i + 1 + length rest) (l[i := Some item]) = drop (i + 1 + length rest) l"
      by simp
    have "fill l i (item # rest) = fill (l[i := Some item]) (i + 1) rest"
      using True by simp
    also have "\<dots> =
      (if i + 1 + length rest \<le> length l
       then Inr (take i l @ [Some item] @ map Some rest @ drop (i + 1 + length rest) l,
                 i + 1 + length rest)
       else Inl IndexError)"
      using Cons.IH[of "i + 1" "l[i := Some item]"] True unfolding t d by simp
    finally show ?thesis by simp
  qed
qed

lemma populate_Sized:
  "populate (Sized n xs) =
     (if n < length xs then Inl IndexError
      else if length xs < n then Inl (ValueError_size n (length xs))
      else Inr xs)"
  by (auto simp: populate_def fill_result comp_def)

lemma init_ordered: "SortedListSet_init iterable kf kid = Inr s \<Longrightarrow> ordered s"
proof -
  assume a: "SortedListSet_init iterable kf kid = Inr s"
  then obtain l0 where l0: "populate iterable = Inr l0"
    by (auto simp: SortedListSet_init_def split: sum.splits)
  let ?l1 = "sort_key kf l0"
  have s: "s = \<lparr>key = kf, key_id = kid,
      list' = (if ?l1 \<noteq> [] then dedupe kf (?l1 ! 0) 1 ?l1 else ?l1), modCount = 0\<rparr>"
    using a l0 by (simp add: SortedListSet_init_def Let_def)
  show "ordered s"
  proof (cases "?l1 = []")
    case True
    then show ?thesis using s by (simp add: ordered_def)
  next
    case False
    have "sorted_wrt (<) (map kf (dedupe kf (?l1 ! 0) 1 ?l1))"
    proof (rule dedupe_sorted)
      show "sorted (map kf ?l1)" by simp
      show "sorted_wrt (<) (map kf (take 1 ?l1))" using False by (cases ?l1) simp_all
      show "1 \<le> length ?l1" using False by (cases ?l1) simp_all
    qed simp_all
    then show ?thesis using s False by (simp add: ordered_def)
  qed
qed

lemma iterate_fresh:
  "it_modCount it = modCount s \<Longrightarrow> iterate s it = Inr (it_iter it)"
proof (induction "it_iter it" arbitrary: it)
  case Nil
  then show ?case by (subst iterate.simps) (simp add: Iterator_next_def)
next
  case (Cons x xs)
  have "iterate s (it\<lparr>it_iter := xs\<rparr>) = Inr xs"
    using Cons.hyps(1)[of "it\<lparr>it_iter := xs\<rparr>"] Cons.prems by simp
  then show ?case using Cons.hyps(2)[symmetric] Cons.prems
    by (subst iterate.simps) (simp add: Iterator_next_def)
qed

lemma iterate_whole: "iterate s (iter s None None) = Inr (list' s)"
  using iterate_fresh[of "iter s None None" s] by (simp add: iter_def slice_def)

lemma pos_same_key: "key s a = key s b \<Longrightarrow> pos s a = pos s b"
  by (simp add: pos_def)

lemma add_equal_key:
  assumes ord: "ordered s" and mem: "contains s a" and k: "key s a = key s b"
  shows "(b = a \<longrightarrow> add s b = s) \<and>
         (b \<noteq> a \<longrightarrow> len (add s b) = len s \<and> contains (add s b) b \<and> \<not> contains (add s b) a \<and>
            modCount (add s b) = modCount s + 1)"
proof -
  let ?p = "pos s b"
  have pa: "pos s a = ?p" using k by (rule pos_same_key)
  have p: "?p < length (list' s)" "list' s ! ?p = a"
    using mem pa by (simp_all add: contains_def Let_def)
  have same: "b = a \<Longrightarrow> add s b = s"
    using p k by (simp add: add_def Let_def)
  have diff: "len (add s b) = len s \<and> contains (add s b) b \<and> \<not> contains (add s b) a \<and>
            modCount (add s b) = modCount s + 1" if ne: "b \<noteq> a"
  proof -
    let ?s = "s\<lparr>modCount := modCount s + 1, list' := (list' s)[?p := b]\<rparr>"
    have add: "add s b = ?s" using p k ne by (simp add: add_def Let_def)
    have "ordered ?s"
      using sorted_replace_key[of "key s" "list' s" ?p b] ord p k by (simp add: ordered_def)
    then have loc: "located (key s) ((list' s)[?p := b]) (key s b) (pos ?s b)"
      using pos_located[of ?s b] by simp
    have "pos ?s b = ?p"
      using located_unique[OF loc, of ?p] p by simp
    moreover have "pos ?s a = pos ?s b" using k by (simp add: pos_def)
    ultimately show ?thesis unfolding add using p ne
      by (simp add: contains_def len_def Let_def)
  qed
  show ?thesis using same diff by blast
qed

lemma iter_empty_range:
  assumes "pos s t \<le> pos s f"
  shows "it_iter (iter s (Some f) (Some t)) = []"
    and "it_modCount (iter s (Some f) (Some t)) = modCount s"
  using assms by (simp_all add: iter_def slice_def)

lemma key_add [simp]: "key (add s v) = key s"
  by (simp add: add_def Let_def)

lemma key_discard [simp]: "key (discard s v) = key s"
  by (simp add: discard_def Let_def)

lemma key_apply_mutations: "key (apply_mutations s ms) = key s"
  unfolding apply_mutations_def
proof (induction ms arbitrary: s)
  case Nil
  show ?case by simp
next
  case (Cons m ms)
  show ?case using Cons.IH[of "apply_mutation s m"] by (cases m) simp_all
qed

lemma key_init: "SortedListSet_init iterable kf kid = Inr s \<Longrightarrow> key s = kf"
  by (auto simp: SortedListSet_init_def Let_def split: sum.splits)


section \<open>SortedListSet: the claims\<close>

text \<open>
  C7. A set built by the constructor and changed by any sequence of \<open>add\<close> and
  \<open>discard\<close> calls iterates as its backing list, which ascends strictly by key, so
  no two elements share a key, and whose length is the length the set reports.
\<close>

theorem order_invariant:
  assumes "SortedListSet_init iterable kf kid = Inr s0"
  shows "let s = apply_mutations s0 ms in
           iterate s (iter s None None) = Inr (list' s) \<and>
           sorted_wrt (<) (map kf (list' s)) \<and>
           distinct (map kf (list' s)) \<and>
           length (list' s) = len s"
proof -
  let ?s = "apply_mutations s0 ms"
  have "ordered ?s" using assms by (intro ordered_apply_mutations init_ordered)
  moreover have "key ?s = kf" using assms by (simp add: key_apply_mutations key_init)
  ultimately have srt: "sorted_wrt (<) (map kf (list' ?s))" by (simp add: ordered_def)
  then have "distinct (map kf (list' ?s))"
    using strict_sorted_iff by blast
  then show ?thesis using srt by (simp add: Let_def iterate_whole len_def)
qed

theorem order_invariant_witness:
  "SortedListSet_init (Unsized [0, 15, 1, - 3, 1 :: int]) (\<lambda>x. x) 0 =
     Inr \<lparr>key = (\<lambda>x. x), key_id = 0, list' = [- 3, 0, 1, 15], modCount = 0\<rparr> \<and>
   (let s = apply_mutations \<lparr>key = (\<lambda>x. x), key_id = 0, list' = [- 3, 0, 1, 15 :: int], modCount = 0\<rparr>
              [Add 7, Discard 0, Add 1, Add 20]
    in iterate s (iter s None None) = Inr (list' s) \<and>
       sorted_wrt (<) (map (\<lambda>x. x) (list' s)) \<and>
       distinct (map (\<lambda>x. x) (list' s)) \<and>
       length (list' s) = len s)"
proof -
  have h: "SortedListSet_init (Unsized [0, 15, 1, - 3, 1 :: int]) (\<lambda>x. x) 0 =
     Inr \<lparr>key = (\<lambda>x. x), key_id = 0, list' = [- 3, 0, 1, 15], modCount = 0\<rparr>"
    by (simp add: SortedListSet_init_def populate_def dedupe.simps del_at_def)
  show ?thesis using h order_invariant[OF h, of "[Add 7, Discard 0, Add 1, Add 20]"] by simp
qed

text \<open>
  C8. Let \<open>s\<close> be a set built by the constructor and changed by \<open>add\<close> and
  \<open>discard\<close> calls, let \<open>a\<close> be a member of \<open>s\<close> and \<open>b\<close> an element with the key
  of \<open>a\<close>. If \<open>b\<close> equals \<open>a\<close>, \<open>add b\<close> changes nothing, the modification counter
  included. If \<open>b\<close> differs from \<open>a\<close>, \<open>add b\<close> leaves the length as it is, makes
  \<open>b\<close> a member and \<open>a\<close> a non-member, and raises the modification counter by one.
\<close>

theorem equal_key_add:
  assumes "SortedListSet_init iterable kf kid = Inr s0"
    and "s = apply_mutations s0 ms"
    and "contains s a"
    and "kf a = kf b"
  shows "(b = a \<longrightarrow> add s b = s) \<and>
         (b \<noteq> a \<longrightarrow> len (add s b) = len s \<and> contains (add s b) b \<and> \<not> contains (add s b) a \<and>
            modCount (add s b) = modCount s + 1)"
proof -
  have "ordered s" using assms(1,2) by (simp add: ordered_apply_mutations init_ordered)
  moreover have "key s = kf" using assms(1,2) by (simp add: key_apply_mutations key_init)
  ultimately show ?thesis using add_equal_key[of s a b] assms(3,4) by simp
qed

theorem equal_key_add_witness:
  "SortedListSet_init (Unsized [(2 :: int, ''b''), (1, ''a'')]) fst 0 =
     Inr \<lparr>key = fst, key_id = 0, list' = [(1, ''a''), (2, ''b'')], modCount = 0\<rparr> \<and>
   contains \<lparr>key = fst, key_id = 0, list' = [(1 :: int, ''a''), (2, ''b'')], modCount = 0\<rparr> (1, ''a'') \<and>
   add \<lparr>key = fst, key_id = 0, list' = [(1 :: int, ''a''), (2, ''b'')], modCount = 0\<rparr> (1, ''a'') =
     \<lparr>key = fst, key_id = 0, list' = [(1, ''a''), (2, ''b'')], modCount = 0\<rparr> \<and>
   len (add \<lparr>key = fst, key_id = 0, list' = [(1 :: int, ''a''), (2, ''b'')], modCount = 0\<rparr> (1, ''z'')) = 2 \<and>
   contains (add \<lparr>key = fst, key_id = 0, list' = [(1 :: int, ''a''), (2, ''b'')], modCount = 0\<rparr> (1, ''z'')) (1, ''z'') \<and>
   \<not> contains (add \<lparr>key = fst, key_id = 0, list' = [(1 :: int, ''a''), (2, ''b'')], modCount = 0\<rparr> (1, ''z'')) (1, ''a'') \<and>
   modCount (add \<lparr>key = fst, key_id = 0, list' = [(1 :: int, ''a''), (2, ''b'')], modCount = 0\<rparr> (1, ''z'')) = 1"
proof -
  let ?s = "\<lparr>key = fst, key_id = 0, list' = [(1 :: int, ''a''), (2, ''b'')], modCount = 0\<rparr>"
  have h1: "SortedListSet_init (Unsized [(2 :: int, ''b''), (1, ''a'')]) fst 0 = Inr ?s"
    by (simp add: SortedListSet_init_def populate_def dedupe.simps del_at_def)
  have h2: "?s = apply_mutations ?s []" by (simp add: apply_mutations_def)
  have h3: "contains ?s (1, ''a'')"
    by (simp add: contains_def pos_def pos_loop.simps Let_def)
  have h4: "fst (1 :: int, ''a'') = fst (1 :: int, ''a'')" "fst (1 :: int, ''a'') = fst (1 :: int, ''z'')"
    by simp_all
  show ?thesis
    using h1 h3 equal_key_add[OF h1 h2 h3 h4(1)] equal_key_add[OF h1 h2 h3 h4(2)]
    by (simp add: len_def)
qed

text \<open>
  C10. When the position computed for \<open>from_\<close> is not before the one computed for
  \<open>to_\<close>, \<open>iter(from_, to_)\<close> returns an iterator whose first advance ends the
  iteration: it yields no element.
\<close>

theorem empty_range_iter:
  assumes "pos s to' \<le> pos s from'"
  shows "Iterator_next s (iter s (Some from') (Some to')) = Inl StopIteration \<and>
         iterate s (iter s (Some from') (Some to')) = Inr []"
proof -
  have e: "it_iter (iter s (Some from') (Some to')) = []"
    and m: "it_modCount (iter s (Some from') (Some to')) = modCount s"
    using iter_empty_range[OF assms] by simp_all
  have "iterate s (iter s (Some from') (Some to')) = Inr (it_iter (iter s (Some from') (Some to')))"
    using m by (rule iterate_fresh)
  then show ?thesis using e m by (simp add: Iterator_next_def)
qed

theorem empty_range_iter_witness:
  "pos \<lparr>key = (\<lambda>x. x), key_id = 0, list' = [1, 2, 3 :: int], modCount = 0\<rparr> 2
     \<le> pos \<lparr>key = (\<lambda>x. x), key_id = 0, list' = [1, 2, 3 :: int], modCount = 0\<rparr> 5 \<and>
   Iterator_next \<lparr>key = (\<lambda>x. x), key_id = 0, list' = [1, 2, 3 :: int], modCount = 0\<rparr>
     (iter \<lparr>key = (\<lambda>x. x), key_id = 0, list' = [1, 2, 3 :: int], modCount = 0\<rparr> (Some 5) (Some 2))
     = Inl StopIteration \<and>
   iterate \<lparr>key = (\<lambda>x. x), key_id = 0, list' = [1, 2, 3 :: int], modCount = 0\<rparr>
     (iter \<lparr>key = (\<lambda>x. x), key_id = 0, list' = [1, 2, 3 :: int], modCount = 0\<rparr> (Some 5) (Some 2))
     = Inr []"
proof -
  let ?s = "\<lparr>key = (\<lambda>x. x), key_id = 0, list' = [1, 2, 3 :: int], modCount = 0\<rparr>"
  have h: "pos ?s 2 \<le> pos ?s 5" by (simp add: pos_def pos_loop.simps Let_def)
  show ?thesis using h empty_range_iter[OF h] by simp
qed

text \<open>
  C1. The claim is that \<open><=\<close> between two sets with one key function agrees with the
  brute-force membership test. The co-scan of \<open>__le__\<close> does not: after skipping the
  smaller keys of the right operand it never tests that the element it stops at is
  the one it looks for. \<open>{1} <= {0, 2}\<close> is \<open>True\<close> although \<open>1\<close> is not a member
  of \<open>{0, 2}\<close>, and \<open>{2, 3, 9} <= {0, 1, 3}\<close> reads past the end of the right
  operand's list.
\<close>

theorem le_accepts_non_subset:
  "SortedListSet_init (Unsized [1 :: int]) (\<lambda>x. x) 0 =
     Inr \<lparr>key = (\<lambda>x. x), key_id = 0, list' = [1], modCount = 0\<rparr> \<and>
   SortedListSet_init (Unsized [2, 0 :: int]) (\<lambda>x. x) 0 =
     Inr \<lparr>key = (\<lambda>x. x), key_id = 0, list' = [0, 2], modCount = 0\<rparr> \<and>
   le prefers_search \<lparr>key = (\<lambda>x. x), key_id = 0, list' = [1 :: int], modCount = 0\<rparr>
     (SLS \<lparr>key = (\<lambda>x. x), key_id = 0, list' = [0, 2], modCount = 0\<rparr>) = Inr True \<and>
   brute_force_subset \<lparr>key = (\<lambda>x. x), key_id = 0, list' = [1 :: int], modCount = 0\<rparr>
     \<lparr>key = (\<lambda>x. x), key_id = 0, list' = [0, 2], modCount = 0\<rparr> = False \<and>
   le prefers_search \<lparr>key = (\<lambda>x. x), key_id = 0, list' = [2, 3, 9 :: int], modCount = 0\<rparr>
     (SLS \<lparr>key = (\<lambda>x. x), key_id = 0, list' = [0, 1, 3], modCount = 0\<rparr>) = Inl IndexError"
  by (simp add: SortedListSet_init_def populate_def dedupe.simps del_at_def le_def
      skip_below.simps brute_force_subset_def contains_def pos_def pos_loop.simps Let_def)

text \<open>
  C3. The claim is that an \<open>add\<close> that appends increments the modification counter.
  The appending branch of \<open>add\<close> does not touch \<open>modCount\<close>: adding \<open>1\<close> to the
  empty set appends it and leaves the counter at \<open>0\<close>.
\<close>

theorem append_keeps_modCount:
  "SortedListSet_init NoIterable (\<lambda>x :: int. x) 0 =
     Inr \<lparr>key = (\<lambda>x. x), key_id = 0, list' = [], modCount = 0\<rparr> \<and>
   length (list' \<lparr>key = (\<lambda>x. x), key_id = 0, list' = [] :: int list, modCount = 0\<rparr>)
     \<le> pos \<lparr>key = (\<lambda>x. x), key_id = 0, list' = [] :: int list, modCount = 0\<rparr> 1 \<and>
   add \<lparr>key = (\<lambda>x. x), key_id = 0, list' = [] :: int list, modCount = 0\<rparr> 1 =
     \<lparr>key = (\<lambda>x. x), key_id = 0, list' = [1], modCount = 0\<rparr>"
  by (simp add: SortedListSet_init_def populate_def add_def pos_def pos_loop.simps Let_def)

text \<open>
  C4. The claim is that an iterator raises on its next advance after any \<open>add\<close>
  that changes the set. After an \<open>add\<close> that appends, the counter is unchanged, and
  the advance returns the first element of the old contents instead of raising.
\<close>

theorem iterator_survives_append:
  "add \<lparr>key = (\<lambda>x. x), key_id = 0, list' = [1 :: int], modCount = 0\<rparr> 2 =
     \<lparr>key = (\<lambda>x. x), key_id = 0, list' = [1, 2], modCount = 0\<rparr> \<and>
   Iterator_next (add \<lparr>key = (\<lambda>x. x), key_id = 0, list' = [1 :: int], modCount = 0\<rparr> 2)
     (iter \<lparr>key = (\<lambda>x. x), key_id = 0, list' = [1 :: int], modCount = 0\<rparr> None None) =
     Inr (1, \<lparr>it_modCount = 0, it_iter = []\<rparr>)"
  by (simp add: add_def pos_def pos_loop.simps Let_def iter_def slice_def Iterator_next_def)

text \<open>
  C5. The claim is that \<open>==\<close> against another kind of set, or against a sorted set
  with another key function, is generic set equality. \<open>__eq__\<close> returns
  \<open>collections.MutableSet.__le__(self, other)\<close> there, the subset test: \<open>{1}\<close>
  compares equal to \<open>{1, 2}\<close>, which generic set equality denies.
\<close>

theorem eq_falls_back_to_subset_test:
  "eq \<lparr>key = (\<lambda>x. x), key_id = 0, list' = [1 :: int], modCount = 0\<rparr> (OtherSet {1, 2}) = Inr True \<and>
   Set_eq prefers_search \<lparr>key = (\<lambda>x. x), key_id = 0, list' = [1 :: int], modCount = 0\<rparr>
     (OtherSet {1, 2}) = Inr False \<and>
   eq \<lparr>key = (\<lambda>x. x), key_id = 0, list' = [1 :: int], modCount = 0\<rparr>
     (SLS \<lparr>key = (\<lambda>x. x), key_id = 1, list' = [1, 2], modCount = 0\<rparr>) = Inr True \<and>
   Set_eq prefers_search \<lparr>key = (\<lambda>x. x), key_id = 0, list' = [1 :: int], modCount = 0\<rparr>
     (SLS \<lparr>key = (\<lambda>x. x), key_id = 1, list' = [1, 2], modCount = 0\<rparr>) = Inr False"
  by (simp add: eq_def Set_eq_def Set_le_def len_def operand_len_def iter_def slice_def
      Set_le_loop.simps Iterator_next_def operand_contains_def contains_def pos_def
      pos_loop.simps Let_def)

text \<open>
  C6. The claim is that the constructor raises a value error naming both counts
  whenever a sized iterable produces a number of elements other than its reported
  size. With fewer elements it does; with more, the store into the pre-allocated
  list raises \<open>IndexError\<close> before the sizes are compared.
\<close>

theorem init_oversized_iterable:
  "SortedListSet_init (Sized 1 [1, 2 :: int]) (\<lambda>x. x) 0 = Inl IndexError \<and>
   SortedListSet_init (Sized 3 [1, 2 :: int]) (\<lambda>x. x) 0 = Inl (ValueError_size 3 2)"
  by (simp add: SortedListSet_init_def populate_def)

section \<open>OneToOneMap: the two dictionaries stay inverse\<close>

lemma inverse_dicts_dom: "inverse_dicts F R \<Longrightarrow> dom R = ran F"
  by (auto simp: inverse_dicts_def ran_def dom_def)

lemma inverse_dicts_sym: "inverse_dicts F R \<Longrightarrow> inverse_dicts R F"
proof -
  assume a: "inverse_dicts F R"
  then have "finite (ran F)" by (simp add: inverse_dicts_def finite_ran)
  then show ?thesis using a inverse_dicts_dom[OF a] by (simp add: inverse_dicts_def)
qed

lemma inverse_dicts_card:
  assumes "inverse_dicts F R"
  shows "card (dom R) = card (dom F)"
proof -
  have iff: "\<And>a b. F a = Some b \<longleftrightarrow> R b = Some a"
    using assms by (simp add: inverse_dicts_def)
  have inj: "inj_on (\<lambda>k. the (F k)) (dom F)"
  proof (rule inj_onI)
    fix x y assume x: "x \<in> dom F" and y: "y \<in> dom F" and e: "the (F x) = the (F y)"
    from x obtain v where v: "F x = Some v" by auto
    from y e v have "F y = Some v" by auto
    then have "R v = Some y" using iff by simp
    moreover have "R v = Some x" using v iff by simp
    ultimately show "x = y" by simp
  qed
  have img: "(\<lambda>k. the (F k)) ` dom F = dom R"
  proof (rule set_eqI)
    fix v
    show "v \<in> (\<lambda>k. the (F k)) ` dom F \<longleftrightarrow> v \<in> dom R"
    proof
      assume "v \<in> (\<lambda>k. the (F k)) ` dom F"
      then obtain k w where "F k = Some w" "v = w" by auto
      then have "R v = Some k" using iff by simp
      then show "v \<in> dom R" by auto
    next
      assume "v \<in> dom R"
      then obtain k where "R v = Some k" by auto
      then have "F k = Some v" using iff by simp
      then have "k \<in> dom F" "the (F k) = v" by auto
      then show "v \<in> (\<lambda>k. the (F k)) ` dom F" by (metis imageI)
    qed
  qed
  have "card (dom R) = card ((\<lambda>k. the (F k)) ` dom F)" using img by simp
  also have "\<dots> = card (dom F)" using inj by (rule card_image)
  finally show ?thesis .
qed

lemma inverse_update:
  assumes inv: "inverse_dicts F R" and nv: "\<not> (R v \<noteq> None \<and> R v \<noteq> Some k)"
    and nk: "\<not> (F k \<noteq> None \<and> F k \<noteq> Some v)"
  shows "inverse_dicts (F(k \<mapsto> v)) (R(v \<mapsto> k))"
proof -
  have iff: "\<And>a b. F a = Some b \<longleftrightarrow> R b = Some a"
    using inv by (simp add: inverse_dicts_def)
  have fin: "finite (dom (F(k \<mapsto> v)))" using inv by (simp add: inverse_dicts_def)
  have "(F(k \<mapsto> v)) a = Some b \<longleftrightarrow> (R(v \<mapsto> k)) b = Some a" for a b
  proof (cases "a = k")
    case ak: True
    show ?thesis
    proof (cases "b = v")
      case True
      then show ?thesis using ak by simp
    next
      case False
      have "R b \<noteq> Some k"
      proof
        assume "R b = Some k"
        then have "F k = Some b" using iff by simp
        then show False using nk False by simp
      qed
      then show ?thesis using ak False by simp
    qed
  next
    case nak: False
    show ?thesis
    proof (cases "b = v")
      case True
      have "F a \<noteq> Some v"
      proof
        assume "F a = Some v"
        then have "R v = Some a" using iff by simp
        then show False using nv nak by simp
      qed
      then show ?thesis using nak True by simp
    next
      case False
      then show ?thesis using nak iff by simp
    qed
  qed
  then show ?thesis using fin unfolding inverse_dicts_def by blast
qed

lemma inverse_delete:
  assumes inv: "inverse_dicts F R" and kv: "F k = Some v"
  shows "inverse_dicts (F(k := None)) (R(v := None))"
proof -
  have iff: "\<And>a b. F a = Some b \<longleftrightarrow> R b = Some a"
    using inv by (simp add: inverse_dicts_def)
  have fin: "finite (dom (F(k := None)))" using inv by (simp add: inverse_dicts_def)
  have "(F(k := None)) a = Some b \<longleftrightarrow> (R(v := None)) b = Some a" for a b
  proof (cases "a = k")
    case ak: True
    have "b \<noteq> v \<Longrightarrow> R b \<noteq> Some k"
    proof
      assume "b \<noteq> v" "R b = Some k"
      then have "F k = Some b" using iff by simp
      then show False using kv \<open>b \<noteq> v\<close> by simp
    qed
    then show ?thesis using ak by auto
  next
    case nak: False
    have "b = v \<Longrightarrow> F a \<noteq> Some b"
    proof
      assume "b = v" "F a = Some b"
      then have "R v = Some a" using iff by simp
      moreover have "R v = Some k" using kv iff by simp
      ultimately show False using nak by simp
    qed
    then show ?thesis using nak iff by auto
  qed
  then show ?thesis using fin unfolding inverse_dicts_def by blast
qed

lemma linked_sym: "linked h f r \<Longrightarrow> linked h r f"
  unfolding linked_def using inverse_dicts_sym by blast

lemma paired_sym: "paired h a b \<Longrightarrow> paired h b a"
  unfolding paired_def using linked_sym by blast

lemma setitem_conflict:
  assumes "objects h a = Some m" and "dicts h (m_forward m) = Some F"
    and "dicts h (m_reverse m) = Some R"
    and "(R v \<noteq> None \<and> R v \<noteq> Some k) \<or> (F k \<noteq> None \<and> F k \<noteq> Some v)"
  shows "fst (setitem h a k v) \<noteq> None \<and> snd (setitem h a k v) = h"
  using assms
  by (auto simp: setitem_def dict_getitem_def split: sum.splits option.splits)

lemma setitem_success:
  assumes "objects h a = Some m" and "dicts h (m_forward m) = Some F"
    and "dicts h (m_reverse m) = Some R" and "m_forward m \<noteq> m_reverse m"
    and "\<not> (R v \<noteq> None \<and> R v \<noteq> Some k)" and "\<not> (F k \<noteq> None \<and> F k \<noteq> Some v)"
  shows "setitem h a k v =
     (None, h\<lparr>dicts := (dicts h)(m_forward m \<mapsto> F(k \<mapsto> v), m_reverse m \<mapsto> R(v \<mapsto> k))\<rparr>)"
  using assms
  by (auto simp: setitem_def dict_setitem_def split: sum.splits option.splits)

lemma setitem_linked:
  assumes obj: "objects h a = Some m" and l: "linked h (m_forward m) (m_reverse m)"
  shows "linked (snd (setitem h a k v)) (m_forward m) (m_reverse m)"
    and "objects (snd (setitem h a k v)) = objects h"
    and "fst (setitem h a k v) = None \<Longrightarrow>
         (\<exists>F R. dicts (snd (setitem h a k v)) (m_forward m) = Some F \<and> F k = Some v \<and>
                dicts (snd (setitem h a k v)) (m_reverse m) = Some R \<and> R v = Some k)"
proof -
  from l obtain F R where ne: "m_forward m \<noteq> m_reverse m"
    and F: "dicts h (m_forward m) = Some F" and R: "dicts h (m_reverse m) = Some R"
    and inv: "inverse_dicts F R"
    unfolding linked_def by blast
  let ?c = "(R v \<noteq> None \<and> R v \<noteq> Some k) \<or> (F k \<noteq> None \<and> F k \<noteq> Some v)"
  have "linked (snd (setitem h a k v)) (m_forward m) (m_reverse m) \<and>
        objects (snd (setitem h a k v)) = objects h \<and>
        (fst (setitem h a k v) = None \<longrightarrow>
         (\<exists>F R. dicts (snd (setitem h a k v)) (m_forward m) = Some F \<and> F k = Some v \<and>
                dicts (snd (setitem h a k v)) (m_reverse m) = Some R \<and> R v = Some k))"
  proof (cases ?c)
    case True
    have "fst (setitem h a k v) \<noteq> None" "snd (setitem h a k v) = h"
      using setitem_conflict[OF obj F R True] by blast+
    then show ?thesis using l by auto
  next
    case False
    then have nv: "\<not> (R v \<noteq> None \<and> R v \<noteq> Some k)" and nk: "\<not> (F k \<noteq> None \<and> F k \<noteq> Some v)"
      by blast+
    have s: "setitem h a k v =
       (None, h\<lparr>dicts := (dicts h)(m_forward m \<mapsto> F(k \<mapsto> v), m_reverse m \<mapsto> R(v \<mapsto> k))\<rparr>)"
      using setitem_success[OF obj F R ne nv nk] .
    have "inverse_dicts (F(k \<mapsto> v)) (R(v \<mapsto> k))" using inverse_update[OF inv nv nk] .
    then show ?thesis unfolding s using ne by (auto simp: linked_def)
  qed
  then show "linked (snd (setitem h a k v)) (m_forward m) (m_reverse m)"
    and "objects (snd (setitem h a k v)) = objects h"
    and "fst (setitem h a k v) = None \<Longrightarrow>
         (\<exists>F R. dicts (snd (setitem h a k v)) (m_forward m) = Some F \<and> F k = Some v \<and>
                dicts (snd (setitem h a k v)) (m_reverse m) = Some R \<and> R v = Some k)"
    by blast+
qed

lemma delitem_linked:
  assumes obj: "objects h a = Some m" and l: "linked h (m_forward m) (m_reverse m)"
  shows "linked (snd (delitem h a k)) (m_forward m) (m_reverse m)"
    and "objects (snd (delitem h a k)) = objects h"
proof -
  from l obtain F R where ne: "m_forward m \<noteq> m_reverse m"
    and F: "dicts h (m_forward m) = Some F" and R: "dicts h (m_reverse m) = Some R"
    and inv: "inverse_dicts F R"
    unfolding linked_def by blast
  have iff: "\<And>a b. F a = Some b \<longleftrightarrow> R b = Some a"
    using inv by (simp add: inverse_dicts_def)
  have "linked (snd (delitem h a k)) (m_forward m) (m_reverse m) \<and>
        objects (snd (delitem h a k)) = objects h"
  proof (cases "F k")
    case None
    then have "delitem h a k = (Some (KeyError k), h)"
      using obj F by (simp add: delitem_def dict_getitem_def)
    then show ?thesis using l by simp
  next
    case (Some v)
    then have Rv: "R v = Some k" using iff by simp
    have "delitem h a k =
      (None, h\<lparr>dicts := (dicts h)(m_reverse m \<mapsto> R(v := None), m_forward m \<mapsto> F(k := None))\<rparr>)"
      using obj F R Some Rv ne
      by (simp add: delitem_def dict_getitem_def dict_delitem_def)
    moreover have "inverse_dicts (F(k := None)) (R(v := None))"
      using inverse_delete[OF inv Some] .
    ultimately show ?thesis using ne by (auto simp: linked_def)
  qed
  then show "linked (snd (delitem h a k)) (m_forward m) (m_reverse m)"
    and "objects (snd (delitem h a k)) = objects h" by blast+
qed

lemma do_call_paired:
  assumes "paired h a b"
  shows "paired (snd (do_call h a c)) a b"
proof -
  from assms obtain f r where
    a: "objects h a = Some \<lparr>m_forward = f, m_reverse = r, m_peer = Some b\<rparr>" and
    b: "objects h b = Some \<lparr>m_forward = r, m_reverse = f, m_peer = Some a\<rparr>" and
    l: "linked h f r"
    unfolding paired_def by blast
  let ?m = "\<lparr>m_forward = f, m_reverse = r, m_peer = Some b\<rparr>"
  have l': "linked h (m_forward ?m) (m_reverse ?m)" using l by simp
  show ?thesis
  proof (cases c)
    case (SetItem k v)
    show ?thesis
      using setitem_linked(1,2)[OF a l', of k v] a b SetItem
      by (auto simp: paired_def)
  next
    case (DelItem k)
    show ?thesis
      using delitem_linked[OF a l', of k] a b DelItem
      by (auto simp: paired_def)
  qed
qed

lemma reverse_paired: "paired h a b \<Longrightarrow> reverse h a = (Inr b, h)"
  by (auto simp: paired_def reverse_def)

lemma exec_paired:
  assumes "paired h a b"
  shows "paired (exec h a s) a b"
proof (cases s)
  case (On_self c)
  then show ?thesis using do_call_paired[OF assms] by simp
next
  case (On_reverse c)
  have "paired (snd (do_call h b c)) b a"
    using do_call_paired[OF paired_sym[OF assms]] .
  then show ?thesis using On_reverse reverse_paired[OF assms] paired_sym by simp
qed

lemma exec_all_paired: "paired h a b \<Longrightarrow> paired (exec_all h a ss) a b"
  by (induction ss arbitrary: h) (simp_all add: exec_paired)

lemma paired_len:
  assumes "paired h a b"
  shows "\<exists>n. OneToOneMap_len h a = Inr n \<and> OneToOneMap_len h b = Inr n"
proof -
  from assms obtain f r F R where
    a: "objects h a = Some \<lparr>m_forward = f, m_reverse = r, m_peer = Some b\<rparr>" and
    b: "objects h b = Some \<lparr>m_forward = r, m_reverse = f, m_peer = Some a\<rparr>" and
    F: "dicts h f = Some F" and R: "dicts h r = Some R" and inv: "inverse_dicts F R"
    unfolding paired_def linked_def by blast
  have "card (dom R) = card (dom F)" using inverse_dicts_card[OF inv] .
  then show ?thesis using a b F R by (simp add: OneToOneMap_len_def Let_def)
qed

lemma paired_setitem_getitem:
  assumes p: "paired h a b" and ok: "setitem h a k v = (None, h')"
  shows "getitem h' a k = Inr v \<and> getitem h' b v = Inr k"
proof -
  from p obtain f r where
    a: "objects h a = Some \<lparr>m_forward = f, m_reverse = r, m_peer = Some b\<rparr>" and
    b: "objects h b = Some \<lparr>m_forward = r, m_reverse = f, m_peer = Some a\<rparr>" and
    l: "linked h f r"
    unfolding paired_def by blast
  let ?m = "\<lparr>m_forward = f, m_reverse = r, m_peer = Some b\<rparr>"
  have l': "linked h (m_forward ?m) (m_reverse ?m)" using l by simp
  have o: "objects h' = objects h" using setitem_linked(2)[OF a l', of k v] ok by simp
  obtain F R where "dicts h' f = Some F" "F k = Some v" "dicts h' r = Some R" "R v = Some k"
    using setitem_linked(3)[OF a l', of k v] ok by auto
  then show ?thesis using a b o by (simp add: getitem_def dict_getitem_def)
qed

lemma setitem_next_ref: "next_ref (snd (setitem h a k v)) = next_ref h"
  by (auto simp: setitem_def dict_setitem_def split: sum.splits option.splits)

lemma setitem_keeps:
  assumes obj: "objects h a = Some m" and l: "linked h (m_forward m) (m_reverse m)"
    and F: "dicts h (m_forward m) = Some F" and e: "F k0 = Some v0"
  shows "\<exists>F'. dicts (snd (setitem h a k v)) (m_forward m) = Some F' \<and> F' k0 = Some v0"
proof -
  from l F obtain R where ne: "m_forward m \<noteq> m_reverse m"
    and R: "dicts h (m_reverse m) = Some R" and inv: "inverse_dicts F R"
    unfolding linked_def by auto
  let ?c = "(R v \<noteq> None \<and> R v \<noteq> Some k) \<or> (F k \<noteq> None \<and> F k \<noteq> Some v)"
  show ?thesis
  proof (cases ?c)
    case True
    then have "snd (setitem h a k v) = h" using setitem_conflict[OF obj F R True] by blast
    then show ?thesis using F e by simp
  next
    case False
    then have nv: "\<not> (R v \<noteq> None \<and> R v \<noteq> Some k)" and nk: "\<not> (F k \<noteq> None \<and> F k \<noteq> Some v)"
      by blast+
    have s: "setitem h a k v =
       (None, h\<lparr>dicts := (dicts h)(m_forward m \<mapsto> F(k \<mapsto> v), m_reverse m \<mapsto> R(v \<mapsto> k))\<rparr>)"
      using setitem_success[OF obj F R ne nv nk] .
    have "(F(k \<mapsto> v)) k0 = Some v0" using e nk by auto
    then show ?thesis unfolding s using ne by simp
  qed
qed

lemma setitems_linked:
  assumes "objects h a = Some m" and "linked h (m_forward m) (m_reverse m)"
  shows "linked (snd (setitems h a items)) (m_forward m) (m_reverse m) \<and>
         objects (snd (setitems h a items)) = objects h \<and>
         next_ref (snd (setitems h a items)) = next_ref h"
  using assms
proof (induction items arbitrary: h)
  case Nil
  then show ?case by simp
next
  case (Cons kv rest)
  obtain k v where kv: "kv = (k, v)" by (cases kv)
  let ?h1 = "snd (setitem h a k v)"
  have o1: "objects ?h1 = objects h" and l1: "linked ?h1 (m_forward m) (m_reverse m)"
    using setitem_linked(1,2)[OF Cons.prems] by simp_all
  have n1: "next_ref ?h1 = next_ref h" by (rule setitem_next_ref)
  show ?case
  proof (cases "fst (setitem h a k v)")
    case None
    then have "setitems h a (kv # rest) = setitems ?h1 a rest"
      unfolding kv by (simp add: case_prod_beta)
    then show ?thesis using Cons.IH[of ?h1] o1 l1 n1 Cons.prems(1) by simp
  next
    case (Some e)
    then have "setitems h a (kv # rest) = (Some e, ?h1)"
      unfolding kv by (simp add: case_prod_beta)
    then show ?thesis using o1 l1 n1 by simp
  qed
qed

lemma setitems_keeps:
  assumes "objects h a = Some m" and "linked h (m_forward m) (m_reverse m)"
    and "dicts h (m_forward m) = Some F" and "F k0 = Some v0"
  shows "\<exists>F'. dicts (snd (setitems h a items)) (m_forward m) = Some F' \<and> F' k0 = Some v0"
  using assms
proof (induction items arbitrary: h F)
  case Nil
  then show ?case by simp
next
  case (Cons kv rest)
  obtain k v where kv: "kv = (k, v)" by (cases kv)
  let ?h1 = "snd (setitem h a k v)"
  have o1: "objects ?h1 a = Some m" and l1: "linked ?h1 (m_forward m) (m_reverse m)"
    using setitem_linked(1,2)[OF Cons.prems(1,2)] Cons.prems(1) by simp_all
  obtain F1 where F1: "dicts ?h1 (m_forward m) = Some F1" "F1 k0 = Some v0"
    using setitem_keeps[OF Cons.prems] by blast
  show ?case
  proof (cases "fst (setitem h a k v)")
    case None
    then have "setitems h a (kv # rest) = setitems ?h1 a rest"
      unfolding kv by (simp add: case_prod_beta)
    then show ?thesis using Cons.IH[OF o1 l1 F1] by simp
  next
    case (Some e)
    then have "setitems h a (kv # rest) = (Some e, ?h1)"
      unfolding kv by (simp add: case_prod_beta)
    then show ?thesis using F1 by simp
  qed
qed

lemma setitems_stored:
  assumes "objects h a = Some m" and "linked h (m_forward m) (m_reverse m)"
    and "fst (setitems h a items) = None" and "(k0, v0) \<in> set items"
  shows "\<exists>F'. dicts (snd (setitems h a items)) (m_forward m) = Some F' \<and> F' k0 = Some v0"
  using assms
proof (induction items arbitrary: h)
  case Nil
  then show ?case by simp
next
  case (Cons kv rest)
  obtain k v where kv: "kv = (k, v)" by (cases kv)
  let ?h1 = "snd (setitem h a k v)"
  have ok: "fst (setitem h a k v) = None"
    using Cons.prems(3) unfolding kv by (auto simp: case_prod_beta split: option.splits)
  then have st: "setitems h a (kv # rest) = setitems ?h1 a rest"
    unfolding kv by (simp add: case_prod_beta)
  have o1: "objects ?h1 a = Some m" and l1: "linked ?h1 (m_forward m) (m_reverse m)"
    using setitem_linked(1,2)[OF Cons.prems(1,2)] Cons.prems(1) by simp_all
  show ?case
  proof (cases "(k0, v0) \<in> set rest")
    case True
    show ?thesis using Cons.IH[OF o1 l1 _ True] Cons.prems(3) st by simp
  next
    case False
    then have "k0 = k" "v0 = v" using Cons.prems(4) kv by auto
    then obtain F1 where "dicts ?h1 (m_forward m) = Some F1" "F1 k0 = Some v0"
      using setitem_linked(3)[OF Cons.prems(1,2) ok] by auto
    then show ?thesis using setitems_keeps[OF o1 l1] st by simp
  qed
qed

lemma fresh_map_simps:
  "objects (fresh_map h) (next_ref h) =
     Some \<lparr>m_forward = next_ref h + 1, m_reverse = next_ref h + 2, m_peer = None\<rparr>"
  "dicts (fresh_map h) (next_ref h + 1) = Some Map.empty"
  "dicts (fresh_map h) (next_ref h + 2) = Some Map.empty"
  "next_ref (fresh_map h) = next_ref h + 3"
  by (simp_all add: fresh_map_def new_dict_def Let_def)

lemma init_unfold:
  "OneToOneMap_init h items =
     (case setitems (fresh_map h) (next_ref h) items of
        (Some e, h4) \<Rightarrow> (Inl e, h4)
      | (None, h4) \<Rightarrow>
          (case OneToOneMap_init_peer h4 (next_ref h) of
             (Inl e, h5) \<Rightarrow> (Inl e, h5)
           | (Inr p, h5) \<Rightarrow>
               (case objects h5 (next_ref h) of
                  None \<Rightarrow> (Inl AttributeError, h5)
                | Some m \<Rightarrow>
                    (Inr (next_ref h),
                     h5\<lparr>objects := (objects h5)(next_ref h \<mapsto> m\<lparr>m_peer := Some p\<rparr>)\<rparr>))))"
  unfolding OneToOneMap_init_def fresh_map_def Let_def case_prod_beta ..

lemma init_paired:
  assumes "fst (OneToOneMap_init h items) = Inr m"
  shows "\<exists>p. paired (snd (OneToOneMap_init h items)) m p \<and>
             (\<forall>(k, v) \<in> set items.
                getitem (snd (OneToOneMap_init h items)) m k = Inr v \<and>
                getitem (snd (OneToOneMap_init h items)) p v = Inr k)"
proof -
  let ?a = "next_ref h" and ?f = "next_ref h + 1" and ?r = "next_ref h + 2"
  let ?m0 = "\<lparr>m_forward = ?f, m_reverse = ?r, m_peer = None\<rparr>"
  let ?h3 = "fresh_map h"
  have o3: "objects ?h3 ?a = Some ?m0" by (rule fresh_map_simps)
  have "inverse_dicts Map.empty Map.empty" by (simp add: inverse_dicts_def)
  then have "linked ?h3 ?f ?r"
    unfolding linked_def using fresh_map_simps(2,3)[of h] by auto
  then have l3: "linked ?h3 (m_forward ?m0) (m_reverse ?m0)" by simp
  have ok: "fst (setitems ?h3 ?a items) = None"
    using assms unfolding init_unfold by (auto split: prod.splits option.splits)
  obtain h4 where st: "setitems ?h3 ?a items = (None, h4)"
    using ok by (cases "setitems ?h3 ?a items") auto
  have h4: "h4 = snd (setitems ?h3 ?a items)" using st by simp
  have inv4: "linked h4 ?f ?r" "objects h4 = objects ?h3" "next_ref h4 = next_ref ?h3"
    using setitems_linked[OF o3 l3, of items] unfolding h4 by simp_all
  let ?p = "next_ref h + 3"
  let ?h6 = "h4\<lparr>objects := (objects h4)(?p \<mapsto> \<lparr>m_forward = ?r, m_reverse = ?f, m_peer = Some ?a\<rparr>,
                 ?a \<mapsto> \<lparr>m_forward = ?f, m_reverse = ?r, m_peer = Some ?p\<rparr>)\<rparr>"
  have o4: "objects h4 ?a = Some ?m0" "next_ref h4 = ?p"
    using inv4 o3 by (simp_all add: fresh_map_simps)
  have pe: "OneToOneMap_init_peer h4 ?a =
    (Inr ?p, h4\<lparr>next_ref := ?p + 1, objects := (objects h4)(?p \<mapsto>
        \<lparr>m_forward = ?r, m_reverse = ?f, m_peer = Some ?a\<rparr>)\<rparr>)"
    using o4 by (simp add: OneToOneMap_init_peer_def Let_def)
  have res: "OneToOneMap_init h items =
    (Inr ?a, h4\<lparr>next_ref := ?p + 1, objects := (objects h4)(?p \<mapsto>
        \<lparr>m_forward = ?r, m_reverse = ?f, m_peer = Some ?a\<rparr>,
        ?a \<mapsto> \<lparr>m_forward = ?f, m_reverse = ?r, m_peer = Some ?p\<rparr>)\<rparr>)"
    by (simp add: init_unfold st pe o4)
  let ?h7 = "h4\<lparr>next_ref := ?p + 1, objects := (objects h4)(?p \<mapsto>
        \<lparr>m_forward = ?r, m_reverse = ?f, m_peer = Some ?a\<rparr>,
        ?a \<mapsto> \<lparr>m_forward = ?f, m_reverse = ?r, m_peer = Some ?p\<rparr>)\<rparr>"
  have m: "m = ?a" using assms res by simp
  have "linked ?h7 ?f ?r" using inv4(1) by (simp add: linked_def)
  then have p7: "paired ?h7 ?a ?p" by (simp add: paired_def)
  have stored: "getitem ?h7 ?a k = Inr v \<and> getitem ?h7 ?p v = Inr k"
    if kv: "(k, v) \<in> set items" for k v
  proof -
    obtain F where F: "dicts h4 ?f = Some F" "F k = Some v"
      using setitems_stored[OF o3 l3 ok kv] unfolding h4 by auto
    from inv4(1) F(1) obtain R where R: "dicts h4 ?r = Some R" "inverse_dicts F R"
      unfolding linked_def by auto
    then have "R v = Some k" using F(2) by (simp add: inverse_dicts_def)
    then show ?thesis using F R by (simp add: getitem_def dict_getitem_def)
  qed
  have fin: "paired ?h7 ?a ?p \<and>
        (\<forall>(k, v) \<in> set items. getitem ?h7 ?a k = Inr v \<and> getitem ?h7 ?p v = Inr k)"
    using p7 stored by blast
  have s: "snd (OneToOneMap_init h items) = ?h7" using res by simp
  show ?thesis unfolding s m using fin by (rule exI[where x = ?p])
qed

section \<open>OneToOneMap: the claims\<close>

lemma paired_distinct: "paired h a b \<Longrightarrow> a \<noteq> b"
  by (auto simp: paired_def linked_def)

text \<open>
  C9. Let \<open>m\<close> be a map built by the constructor and then changed by any
  assignments and deletions made on \<open>m\<close> or on \<open>m.reverse()\<close>, those that raise
  included. Then \<open>m.reverse()\<close> is an instance \<open>p\<close> other than \<open>m\<close>, \<open>p.reverse()\<close>
  is \<open>m\<close> itself, and neither call changes the heap; \<open>len(m)\<close> and \<open>len(p)\<close> return
  the same number, their assertion holding; after an assignment of \<open>v\<close> to \<open>k\<close>
  that succeeds on \<open>m\<close> (or of \<open>k\<close> to \<open>v\<close> on \<open>p\<close>), \<open>m[k]\<close> is \<open>v\<close> and
  \<open>p[v]\<close> is \<open>k\<close>; and so it is for every item the constructor was given.
\<close>

theorem bijection_invariants:
  assumes "fst (OneToOneMap_init h0 items) = Inr m"
  shows "let h1 = snd (OneToOneMap_init h0 items); h = exec_all h1 m stmts in
    \<exists>p. p \<noteq> m \<and>
        reverse h m = (Inr p, h) \<and> reverse h p = (Inr m, h) \<and>
        (\<exists>n. OneToOneMap_len h m = Inr n \<and> OneToOneMap_len h p = Inr n) \<and>
        (\<forall>k v h'. setitem h m k v = (None, h') \<longrightarrow>
           getitem h' m k = Inr v \<and> getitem h' p v = Inr k) \<and>
        (\<forall>k v h'. setitem h p v k = (None, h') \<longrightarrow>
           getitem h' m k = Inr v \<and> getitem h' p v = Inr k) \<and>
        (\<forall>(k, v) \<in> set items. getitem h1 m k = Inr v \<and> getitem h1 p v = Inr k)"
proof -
  let ?h1 = "snd (OneToOneMap_init h0 items)"
  let ?h = "exec_all ?h1 m stmts"
  obtain p where p1: "paired ?h1 m p"
    and st: "\<forall>(k, v) \<in> set items. getitem ?h1 m k = Inr v \<and> getitem ?h1 p v = Inr k"
    using init_paired[OF assms] by blast
  have p: "paired ?h m p" using p1 by (rule exec_all_paired)
  have q: "paired ?h p m" using p by (rule paired_sym)
  have "p \<noteq> m" using paired_distinct[OF q] .
  moreover have "reverse ?h m = (Inr p, ?h)" using p by (rule reverse_paired)
  moreover have "reverse ?h p = (Inr m, ?h)" using q by (rule reverse_paired)
  moreover have "\<exists>n. OneToOneMap_len ?h m = Inr n \<and> OneToOneMap_len ?h p = Inr n"
    using p by (rule paired_len)
  moreover have "\<forall>k v h'. setitem ?h m k v = (None, h') \<longrightarrow>
           getitem h' m k = Inr v \<and> getitem h' p v = Inr k"
    using paired_setitem_getitem[OF p] by blast
  moreover have "\<forall>k v h'. setitem ?h p v k = (None, h') \<longrightarrow>
           getitem h' m k = Inr v \<and> getitem h' p v = Inr k"
    using paired_setitem_getitem[OF q] by blast
  ultimately show ?thesis using st unfolding Let_def by blast
qed

lemma init_example:
  "OneToOneMap_init empty_heap [(PyInt 1, PyStr ''a'')] =
     (Inr 0,
      \<lparr>dicts = [1 \<mapsto> [PyInt 1 \<mapsto> PyStr ''a''], 2 \<mapsto> [PyStr ''a'' \<mapsto> PyInt 1]],
       objects = [3 \<mapsto> \<lparr>m_forward = 2, m_reverse = 1, m_peer = Some 0\<rparr>,
                  0 \<mapsto> \<lparr>m_forward = 1, m_reverse = 2, m_peer = Some 3\<rparr>],
       next_ref = 4\<rparr>)"
  by (simp add: OneToOneMap_init_def OneToOneMap_init_peer_def new_dict_def empty_heap_def
      setitem_def dict_setitem_def Let_def fun_upd_twist eval_nat_numeral)

theorem bijection_invariants_witness:
  "fst (OneToOneMap_init empty_heap [(PyInt 1, PyStr ''a'')]) = Inr 0 \<and>
   (let h1 = snd (OneToOneMap_init empty_heap [(PyInt 1, PyStr ''a'')]);
        h = exec_all h1 0
              [On_self (SetItem (PyInt 2) (PyStr ''b'')), On_reverse (DelItem (PyStr ''a''))];
        h' = snd (setitem h 0 (PyInt 5) (PyStr ''e'')) in
      reverse h 0 = (Inr 3, h) \<and> reverse h 3 = (Inr 0, h) \<and>
      OneToOneMap_len h 0 = Inr 1 \<and> OneToOneMap_len h 3 = Inr 1 \<and>
      fst (setitem h 0 (PyInt 5) (PyStr ''e'')) = None \<and>
      getitem h' 0 (PyInt 5) = Inr (PyStr ''e'') \<and> getitem h' 3 (PyStr ''e'') = Inr (PyInt 5) \<and>
      getitem h1 0 (PyInt 1) = Inr (PyStr ''a'') \<and> getitem h1 3 (PyStr ''a'') = Inr (PyInt 1))"
proof -
  let ?h1 = "snd (OneToOneMap_init empty_heap [(PyInt 1, PyStr ''a'')])"
  let ?h = "exec_all ?h1 0
              [On_self (SetItem (PyInt 2) (PyStr ''b'')), On_reverse (DelItem (PyStr ''a''))]"
  let ?h' = "snd (setitem ?h 0 (PyInt 5) (PyStr ''e''))"
  have h: "fst (OneToOneMap_init empty_heap [(PyInt 1, PyStr ''a'')]) = Inr 0"
    by (simp add: init_example)
  obtain p where p: "reverse ?h 0 = (Inr p, ?h)" "reverse ?h p = (Inr 0, ?h)"
    and n: "\<exists>n. OneToOneMap_len ?h 0 = Inr n \<and> OneToOneMap_len ?h p = Inr n"
    and s: "\<forall>k v h'. setitem ?h 0 k v = (None, h') \<longrightarrow>
           getitem h' 0 k = Inr v \<and> getitem h' p v = Inr k"
    and i: "\<forall>(k, v) \<in> set [(PyInt 1, PyStr ''a'')].
           getitem ?h1 0 k = Inr v \<and> getitem ?h1 p v = Inr k"
    using bijection_invariants[OF h,
      of "[On_self (SetItem (PyInt 2) (PyStr ''b'')), On_reverse (DelItem (PyStr ''a''))]"]
    unfolding Let_def by blast
  have e1: "fst (reverse ?h 0) = Inr 3"
    by (simp add: init_example setitem_def delitem_def reverse_def dict_setitem_def
        dict_delitem_def dict_getitem_def)
  have p3: "p = 3" using p(1) e1 by simp
  have e2: "OneToOneMap_len ?h 0 = Inr 1"
    by (simp add: init_example setitem_def delitem_def reverse_def dict_setitem_def
        dict_delitem_def dict_getitem_def OneToOneMap_len_def)
  have e3: "fst (setitem ?h 0 (PyInt 5) (PyStr ''e'')) = None"
    by (simp add: init_example setitem_def delitem_def reverse_def dict_setitem_def
        dict_delitem_def dict_getitem_def)
  then have "setitem ?h 0 (PyInt 5) (PyStr ''e'') = (None, ?h')" by (simp add: prod_eq_iff)
  then have g: "getitem ?h' 0 (PyInt 5) = Inr (PyStr ''e'')"
    "getitem ?h' p (PyStr ''e'') = Inr (PyInt 5)"
    using s by blast+
  have l: "OneToOneMap_len ?h p = Inr 1" using n e2 by auto
  show ?thesis unfolding Let_def using h p l e2 e3 g i unfolding p3 by simp
qed

text \<open>
  C2. The claim is that assigning a value owned by another key fails with a value
  error, and assigning to a key that owns another value with a key error. Both
  \<open>raise\<close> statements first format their message with \<open>%\<close> from a string that has
  no conversion specifier, which raises \<open>TypeError\<close> for every key that is not an
  empty tuple: in \<open>{1: 'a'}\<close>, both \<open>m[2] = 'a'\<close> and \<open>m[1] = 'b'\<close> fail with
  \<open>TypeError\<close>. Only a key such as \<open>()\<close> reaches the \<open>ValueError\<close>.
\<close>

theorem setitem_conflict_raises_TypeError:
  "OneToOneMap_init empty_heap [(PyInt 1, PyStr ''a'')] =
     (Inr 0,
      \<lparr>dicts = [1 \<mapsto> [PyInt 1 \<mapsto> PyStr ''a''], 2 \<mapsto> [PyStr ''a'' \<mapsto> PyInt 1]],
       objects = [3 \<mapsto> \<lparr>m_forward = 2, m_reverse = 1, m_peer = Some 0\<rparr>,
                  0 \<mapsto> \<lparr>m_forward = 1, m_reverse = 2, m_peer = Some 3\<rparr>],
       next_ref = 4\<rparr>) \<and>
   fst (setitem (snd (OneToOneMap_init empty_heap [(PyInt 1, PyStr ''a'')])) 0
          (PyInt 2) (PyStr ''a'')) = Some TypeError \<and>
   fst (setitem (snd (OneToOneMap_init empty_heap [(PyInt 1, PyStr ''a'')])) 0
          (PyInt 1) (PyStr ''b'')) = Some TypeError \<and>
   fst (setitem (snd (OneToOneMap_init empty_heap [(PyInt 1, PyStr ''a'')])) 0
          (PyTuple []) (PyStr ''a'')) =
     Some (ValueError_mapped (PyStr ''a'')
       ''Value is already mapped to another key, please delete it before mapping to ''
       (PyInt 1))"
  by (simp add: init_example setitem_def dict_getitem_def)

end
